theory Spec2Isabelle
  imports Main "HOL-Library.Sublist"
begin

section \<open>JavaScript strings\<close>

text \<open>
  A JavaScript string is a sequence of UTF-16 code units.  A code unit is modelled as a
  natural number; a string is valid when every unit is below \<open>2^16\<close>.  The literals of
  the source are ASCII and are written through \<open>ascii\<close>.
\<close>

type_synonym jsstring = "nat list"

definition valid_string :: "jsstring \<Rightarrow> bool" where
  "valid_string s = list_all (\<lambda>c. c < 65536) s"

definition ascii :: "string \<Rightarrow> jsstring" where
  "ascii s = map of_char s"

definition is_lead :: "nat \<Rightarrow> bool" where
  "is_lead c = (55296 \<le> c \<and> c \<le> 56319)"

definition is_trail :: "nat \<Rightarrow> bool" where
  "is_trail c = (56320 \<le> c \<and> c \<le> 57343)"

definition is_digit :: "nat \<Rightarrow> bool" where
  "is_digit c = (48 \<le> c \<and> c \<le> 57)"

definition is_upper :: "nat \<Rightarrow> bool" where
  "is_upper c = (65 \<le> c \<and> c \<le> 90)"

definition is_lower :: "nat \<Rightarrow> bool" where
  "is_lower c = (97 \<le> c \<and> c \<le> 122)"

definition is_alnum :: "nat \<Rightarrow> bool" where
  "is_alnum c = (is_digit c \<or> is_upper c \<or> is_lower c)"

definition hex_lower :: "nat \<Rightarrow> nat" where
  "hex_lower d = (if d < 10 then 48 + d else 87 + d)"

definition hex_upper :: "nat \<Rightarrow> nat" where
  "hex_upper d = (if d < 10 then 48 + d else 55 + d)"

definition hex_val :: "nat \<Rightarrow> nat option" where
  "hex_val c =
     (if is_digit c then Some (c - 48)
      else if 65 \<le> c \<and> c \<le> 70 then Some (c - 55)
      else if 97 \<le> c \<and> c \<le> 102 then Some (c - 87)
      else None)"

section \<open>JSON values, \<open>JSON.stringify\<close> and \<open>JSON.parse\<close>\<close>

text \<open>
  The values \<open>JSON.parse\<close> can return.  An object is an association list in insertion
  order with distinct keys.  A number carries its source text: its value as a double plays
  no role below.  The reordering of integer-like keys is not modelled (the keys used by
  the editor are \<open>html\<close>, \<open>css\<close>, \<open>js\<close> and \<open>updatedAt\<close>).
\<close>

datatype json =
    JNull
  | JBool bool
  | JNum jsstring
  | JStr jsstring
  | JArr "json list"
  | JObj "(jsstring \<times> json) list"

datatype js_error =
  SyntaxError | URIError | InvalidCharacterError | SecurityError | QuotaExceededError | TypeError

text \<open>\<open>UnicodeEscape\<close>: a backslash, \<open>u\<close> and four lower-case hexadecimal digits.\<close>

definition unicode_escape :: "nat \<Rightarrow> jsstring" where
  "unicode_escape c =
     [92, 117, hex_lower (c div 4096), hex_lower (c div 256 mod 16),
      hex_lower (c div 16 mod 16), hex_lower (c mod 16)]"

text \<open>
  \<open>QuoteJSONString\<close> (ECMAScript 2019 and later, well-formed \<open>JSON.stringify\<close>): the
  short escapes, \<open>\uXXXX\<close> for control characters and for unpaired surrogates, every other
  code point as it is.
\<close>

definition quote_unit :: "nat \<Rightarrow> jsstring" where
  "quote_unit c =
     (if c = 8 then [92, 98]
      else if c = 9 then [92, 116]
      else if c = 10 then [92, 110]
      else if c = 12 then [92, 102]
      else if c = 13 then [92, 114]
      else if c = 34 then [92, 34]
      else if c = 92 then [92, 92]
      else if c < 32 \<or> is_lead c \<or> is_trail c then unicode_escape c
      else [c])"

fun quote_body :: "jsstring \<Rightarrow> jsstring" where
  "quote_body [] = []"
| "quote_body [c] = quote_unit c"
| "quote_body (c # d # cs) =
     (if is_lead c \<and> is_trail d then c # d # quote_body cs
      else quote_unit c @ quote_body (d # cs))"

definition QuoteJSONString :: "jsstring \<Rightarrow> jsstring" where
  "QuoteJSONString s = 34 # quote_body s @ [34]"

fun commas :: "jsstring list \<Rightarrow> jsstring" where
  "commas [] = []"
| "commas [x] = x"
| "commas (x # y # xs) = x @ 44 # commas (y # xs)"

fun JSON_stringify :: "json \<Rightarrow> jsstring" where
  "JSON_stringify JNull = ascii ''null''"
| "JSON_stringify (JBool b) = (if b then ascii ''true'' else ascii ''false'')"
| "JSON_stringify (JNum n) = n"
| "JSON_stringify (JStr s) = QuoteJSONString s"
| "JSON_stringify (JArr vs) = 91 # commas (map JSON_stringify vs) @ [93]"
| "JSON_stringify (JObj kvs) =
     123 # commas (map (\<lambda>kv. QuoteJSONString (fst kv) @ 58 # JSON_stringify (snd kv)) kvs) @ [125]"

text \<open>The parser: white space, strings with their escapes, numbers, literals, arrays, objects.\<close>

definition is_ws :: "nat \<Rightarrow> bool" where
  "is_ws c = (c = 9 \<or> c = 10 \<or> c = 13 \<or> c = 32)"

definition skip_ws :: "jsstring \<Rightarrow> jsstring" where
  "skip_ws t = dropWhile is_ws t"

definition simple_escape :: "nat \<Rightarrow> nat option" where
  "simple_escape e =
     (if e = 34 then Some 34
      else if e = 92 then Some 92
      else if e = 47 then Some 47
      else if e = 98 then Some 8
      else if e = 102 then Some 12
      else if e = 110 then Some 10
      else if e = 114 then Some 13
      else if e = 116 then Some 9
      else None)"

definition hex4 :: "nat \<Rightarrow> nat \<Rightarrow> nat \<Rightarrow> nat \<Rightarrow> nat option" where
  "hex4 a b c d =
     (case (hex_val a, hex_val b, hex_val c, hex_val d) of
        (Some w, Some x, Some y, Some z) \<Rightarrow> Some (4096 * w + 256 * x + 16 * y + z)
      | _ \<Rightarrow> None)"

definition consume :: "'a \<Rightarrow> ('a list \<times> 'b) option \<Rightarrow> ('a list \<times> 'b) option" where
  "consume c r = map_option (\<lambda>(s, t). (c # s, t)) r"

text \<open>The characters of a string after its opening quote, up to the closing quote.\<close>

fun parse_chars :: "jsstring \<Rightarrow> (jsstring \<times> jsstring) option" where
  "parse_chars [] = None"
| "parse_chars (c # cs) =
     (if c = 34 then Some ([], cs)
      else if c = 92 then
        (case cs of
           [] \<Rightarrow> None
         | e # es \<Rightarrow>
             if e = 117 then
               (case es of
                  a # b # c' # d # r \<Rightarrow>
                    (case hex4 a b c' d of
                       None \<Rightarrow> None
                     | Some u \<Rightarrow> consume u (parse_chars r))
                | _ \<Rightarrow> None)
             else
               (case simple_escape e of
                  None \<Rightarrow> None
                | Some x \<Rightarrow> consume x (parse_chars es)))
      else if c < 32 then None
      else consume c (parse_chars cs))"

text \<open>
  A number: \<open>-? (0 | [1-9][0-9]*) (. [0-9]+)? ([eE] [+-]? [0-9]+)?\<close>; the result is its
  text and the rest of the input.
\<close>

definition digits_of :: "jsstring \<Rightarrow> jsstring \<times> jsstring" where
  "digits_of t = (takeWhile is_digit t, dropWhile is_digit t)"

definition parse_int_part :: "jsstring \<Rightarrow> (jsstring \<times> jsstring) option" where
  "parse_int_part t =
     (case t of
        [] \<Rightarrow> None
      | c # cs \<Rightarrow>
          if c = 48 then Some ([48], cs)
          else if is_digit c then (case digits_of cs of (ds, r) \<Rightarrow> Some (c # ds, r))
          else None)"

definition parse_frac_part :: "jsstring \<Rightarrow> (jsstring \<times> jsstring) option" where
  "parse_frac_part t =
     (case t of
        [] \<Rightarrow> Some ([], t)
      | c # cs \<Rightarrow>
          if c = 46 then
            (case digits_of cs of (ds, r) \<Rightarrow> if ds = [] then None else Some (c # ds, r))
          else Some ([], t))"

definition parse_exp_part :: "jsstring \<Rightarrow> (jsstring \<times> jsstring) option" where
  "parse_exp_part t =
     (case t of
        [] \<Rightarrow> Some ([], t)
      | c # cs \<Rightarrow>
          if c = 101 \<or> c = 69 then
            (case cs of
               [] \<Rightarrow> None
             | s # ss \<Rightarrow>
                 if s = 43 \<or> s = 45 then
                   (case digits_of ss of (ds, r) \<Rightarrow> if ds = [] then None else Some (c # s # ds, r))
                 else
                   (case digits_of cs of (ds, r) \<Rightarrow> if ds = [] then None else Some (c # ds, r)))
          else Some ([], t))"

definition parse_number :: "jsstring \<Rightarrow> (jsstring \<times> jsstring) option" where
  "parse_number t =
     (let (sign, t1) = (case t of c # cs \<Rightarrow> if c = 45 then ([45], cs) else ([], t) | [] \<Rightarrow> ([], t))
      in case parse_int_part t1 of
           None \<Rightarrow> None
         | Some (i, t2) \<Rightarrow>
             (case parse_frac_part t2 of
                None \<Rightarrow> None
              | Some (f, t3) \<Rightarrow>
                  (case parse_exp_part t3 of
                     None \<Rightarrow> None
                   | Some (e, t4) \<Rightarrow> Some (sign @ i @ f @ e, t4))))"

definition parse_literal :: "jsstring \<Rightarrow> (json \<times> jsstring) option" where
  "parse_literal t =
     (if take 4 t = ascii ''true'' then Some (JBool True, drop 4 t)
      else if take 5 t = ascii ''false'' then Some (JBool False, drop 5 t)
      else if take 4 t = ascii ''null'' then Some (JNull, drop 4 t)
      else None)"

text \<open>
  Defining a property on an object: a key already present keeps its place and takes the
  new value (a duplicate key in JSON text), a new key is added at the end.
\<close>

fun obj_set :: "jsstring \<Rightarrow> json \<Rightarrow> (jsstring \<times> json) list \<Rightarrow> (jsstring \<times> json) list" where
  "obj_set k v [] = [(k, v)]"
| "obj_set k v ((k', v') # kvs) =
     (if k = k' then (k, v) # kvs else (k', v') # obj_set k v kvs)"

text \<open>
  The recursive descent is driven by fuel: each call that descends into a value, an array
  element or an object member uses one unit, and each such call consumes at least one
  character, so the length of the text plus one is always enough (\<open>parse_fuel_enough\<close>
  below).
\<close>

fun parse_value :: "nat \<Rightarrow> jsstring \<Rightarrow> (json \<times> jsstring) option"
  and parse_elements :: "nat \<Rightarrow> json list \<Rightarrow> jsstring \<Rightarrow> (json \<times> jsstring) option"
  and parse_members :: "nat \<Rightarrow> (jsstring \<times> json) list \<Rightarrow> jsstring \<Rightarrow> (json \<times> jsstring) option"
where
  "parse_value 0 t = None"
| "parse_value (Suc n) t =
     (case skip_ws t of
        [] \<Rightarrow> None
      | c # cs \<Rightarrow>
          if c = 123 then
            (case skip_ws cs of
               [] \<Rightarrow> None
             | d # ds \<Rightarrow> if d = 125 then Some (JObj [], ds) else parse_members n [] cs)
          else if c = 91 then
            (case skip_ws cs of
               [] \<Rightarrow> None
             | d # ds \<Rightarrow> if d = 93 then Some (JArr [], ds) else parse_elements n [] cs)
          else if c = 34 then map_option (\<lambda>(s, r). (JStr s, r)) (parse_chars cs)
          else if c = 45 \<or> is_digit c then
            map_option (\<lambda>(s, r). (JNum s, r)) (parse_number (c # cs))
          else parse_literal (c # cs))"
| "parse_elements 0 acc t = None"
| "parse_elements (Suc n) acc t =
     (case parse_value n t of
        None \<Rightarrow> None
      | Some (v, r) \<Rightarrow>
          (case skip_ws r of
             [] \<Rightarrow> None
           | d # ds \<Rightarrow>
               if d = 44 then parse_elements n (acc @ [v]) ds
               else if d = 93 then Some (JArr (acc @ [v]), ds)
               else None))"
| "parse_members 0 acc t = None"
| "parse_members (Suc n) acc t =
     (case skip_ws t of
        [] \<Rightarrow> None
      | q # qs \<Rightarrow>
          if q \<noteq> 34 then None
          else
            (case parse_chars qs of
               None \<Rightarrow> None
             | Some (k, r) \<Rightarrow>
                 (case skip_ws r of
                    [] \<Rightarrow> None
                  | c # cs \<Rightarrow>
                      if c \<noteq> 58 then None
                      else
                        (case parse_value n cs of
                           None \<Rightarrow> None
                         | Some (v, r') \<Rightarrow>
                             (case skip_ws r' of
                                [] \<Rightarrow> None
                              | d # ds \<Rightarrow>
                                  if d = 44 then parse_members n (obj_set k v acc) ds
                                  else if d = 125 then Some (JObj (obj_set k v acc), ds)
                                  else None)))))"

definition JSON_parse :: "jsstring \<Rightarrow> js_error + json" where
  "JSON_parse text =
     (case parse_value (Suc (length text)) text of
        None \<Rightarrow> Inl SyntaxError
      | Some (v, r) \<Rightarrow> if skip_ws r = [] then Inr v else Inl SyntaxError)"

section \<open>The URI and base64 functions of the platform\<close>

text \<open>UTF-8 of a code point, and the code point of a surrogate pair.\<close>

definition utf8 :: "nat \<Rightarrow> nat list" where
  "utf8 cp =
     (if cp < 128 then [cp]
      else if cp < 2048 then [192 + cp div 64, 128 + cp mod 64]
      else if cp < 65536 then [224 + cp div 4096, 128 + cp div 64 mod 64, 128 + cp mod 64]
      else [240 + cp div 262144, 128 + cp div 4096 mod 64, 128 + cp div 64 mod 64,
            128 + cp mod 64])"

definition pair_cp :: "nat \<Rightarrow> nat \<Rightarrow> nat" where
  "pair_cp hi lo = 65536 + (hi - 55296) * 1024 + (lo - 56320)"

definition utf16 :: "nat \<Rightarrow> jsstring" where
  "utf16 v = (if v < 65536 then [v] else [55296 + (v - 65536) div 1024, 56320 + (v - 65536) mod 1024])"

definition pct :: "nat \<Rightarrow> jsstring" where
  "pct b = [37, hex_upper (b div 16), hex_upper (b mod 16)]"

text \<open>
  \<open>encodeURIComponent\<close>: the abstract operation \<open>Encode\<close> with the unreserved set
  \<open>A-Z a-z 0-9 - _ . ! ~ * ' ( )\<close>.  An unpaired surrogate raises \<open>URIError\<close>.
\<close>

definition uri_unreserved :: "nat \<Rightarrow> bool" where
  "uri_unreserved c = (is_alnum c \<or> c \<in> set (ascii ''-_.!~*'()''))"

definition prepend :: "'a list \<Rightarrow> 'e + 'a list \<Rightarrow> 'e + 'a list" where
  "prepend xs r = (case r of Inl e \<Rightarrow> Inl e | Inr ys \<Rightarrow> Inr (xs @ ys))"

fun encodeURIComponent :: "jsstring \<Rightarrow> js_error + jsstring" where
  "encodeURIComponent [] = Inr []"
| "encodeURIComponent [c] =
     (if uri_unreserved c then Inr [c]
      else if is_lead c \<or> is_trail c then Inl URIError
      else Inr (concat (map pct (utf8 c))))"
| "encodeURIComponent (c # d # cs) =
     (if uri_unreserved c then prepend [c] (encodeURIComponent (d # cs))
      else if is_trail c then Inl URIError
      else if is_lead c then
        (if is_trail d then prepend (concat (map pct (utf8 (pair_cp c d)))) (encodeURIComponent cs)
         else Inl URIError)
      else prepend (concat (map pct (utf8 c))) (encodeURIComponent (d # cs)))"

text \<open>
  \<open>unescape\<close> (Annex B): \<open>%uXXXX\<close> and \<open>%XX\<close> become the code unit they name, every
  other code unit stays.
\<close>

fun unescape :: "jsstring \<Rightarrow> jsstring" where
  "unescape (p # u # a # b # c # d # r) =
     (if p = 37 \<and> u = 117 then
        (case hex4 a b c d of
           Some n \<Rightarrow> n # unescape r
         | None \<Rightarrow> p # unescape (u # a # b # c # d # r))
      else if p = 37 then
        (case (hex_val u, hex_val a) of
           (Some x, Some y) \<Rightarrow> (16 * x + y) # unescape (b # c # d # r)
         | _ \<Rightarrow> p # unescape (u # a # b # c # d # r))
      else p # unescape (u # a # b # c # d # r))"
| "unescape (p # u # a # r) =
     (if p = 37 then
        (case (hex_val u, hex_val a) of
           (Some x, Some y) \<Rightarrow> (16 * x + y) # unescape r
         | _ \<Rightarrow> p # unescape (u # a # r))
      else p # unescape (u # a # r))"
| "unescape (p # r) = p # unescape r"
| "unescape [] = []"

text \<open>
  \<open>escape\<close> (Annex B): the code units \<open>A-Z a-z 0-9 @ * _ + - . /\<close> stay, a code unit
  below 256 becomes \<open>%XX\<close>, any other \<open>%uXXXX\<close>, in upper-case hexadecimal.
\<close>

definition escape_unreserved :: "nat \<Rightarrow> bool" where
  "escape_unreserved c = (is_alnum c \<or> c \<in> set (ascii ''@*_+-./''))"

definition escape_unit :: "nat \<Rightarrow> jsstring" where
  "escape_unit c =
     (if escape_unreserved c then [c]
      else if c < 256 then pct c
      else [37, 117, hex_upper (c div 4096), hex_upper (c div 256 mod 16),
            hex_upper (c div 16 mod 16), hex_upper (c mod 16)])"

definition escape :: "jsstring \<Rightarrow> jsstring" where
  "escape s = concat (map escape_unit s)"

text \<open>
  \<open>decodeURIComponent\<close>: the abstract operation \<open>Decode\<close> with an empty preserved set.
  \<open>read_pct\<close> reads one \<open>%XX\<close>; a first octet with \<open>n\<close> leading one bits announces
  \<open>n - 1\<close> further escapes, and the octets must be the UTF-8 encoding of a code point
  (shortest form, no surrogate, at most \<open>0x10FFFF\<close>).
\<close>

fun read_pct :: "jsstring \<Rightarrow> (nat \<times> jsstring) option" where
  "read_pct (p # a # b # r) =
     (if p = 37 then
        (case (hex_val a, hex_val b) of
           (Some x, Some y) \<Rightarrow> Some (16 * x + y, r)
         | _ \<Rightarrow> None)
      else None)"
| "read_pct _ = None"

fun read_conts :: "nat \<Rightarrow> jsstring \<Rightarrow> (nat list \<times> jsstring) option" where
  "read_conts 0 t = Some ([], t)"
| "read_conts (Suc n) t =
     (case read_pct t of
        None \<Rightarrow> None
      | Some (b, r) \<Rightarrow> consume b (read_conts n r))"

definition leading_ones :: "nat \<Rightarrow> nat" where
  "leading_ones b =
     (if b < 128 then 0 else if b < 192 then 1 else if b < 224 then 2
      else if b < 240 then 3 else if b < 248 then 4 else 5)"

definition is_cont :: "nat \<Rightarrow> bool" where
  "is_cont b = (128 \<le> b \<and> b < 192)"

definition scalar_in :: "nat \<Rightarrow> nat \<Rightarrow> nat option" where
  "scalar_in lo v =
     (if lo \<le> v \<and> v \<le> 1114111 \<and> \<not> is_lead v \<and> \<not> is_trail v then Some v else None)"

fun utf8_decode :: "nat list \<Rightarrow> nat option" where
  "utf8_decode [a, b] =
     (if is_cont b then scalar_in 128 ((a - 192) * 64 + (b - 128)) else None)"
| "utf8_decode [a, b, c] =
     (if is_cont b \<and> is_cont c
      then scalar_in 2048 ((a - 224) * 4096 + (b - 128) * 64 + (c - 128)) else None)"
| "utf8_decode [a, b, c, d] =
     (if is_cont b \<and> is_cont c \<and> is_cont d
      then scalar_in 65536 ((a - 240) * 262144 + (b - 128) * 4096 + (c - 128) * 64 + (d - 128))
      else None)"
| "utf8_decode _ = None"

lemma read_pct_length: "read_pct t = Some (b, r) \<Longrightarrow> length r < length t"
  by (induction t rule: read_pct.induct) (auto split: if_splits option.splits)

lemma read_conts_length: "read_conts n t = Some (bs, r) \<Longrightarrow> length r \<le> length t"
proof (induction n arbitrary: t bs)
  case 0
  then show ?case by simp
next
  case (Suc n)
  then show ?case
    by (fastforce simp: consume_def split: option.splits dest: read_pct_length)
qed

function decodeURIComponent :: "jsstring \<Rightarrow> js_error + jsstring" where
  "decodeURIComponent [] = Inr []"
| "decodeURIComponent (c # cs) =
     (if c \<noteq> 37 then prepend [c] (decodeURIComponent cs)
      else
        (case read_pct (c # cs) of
           None \<Rightarrow> Inl URIError
         | Some (b, r) \<Rightarrow>
             if leading_ones b = 0 then prepend [b] (decodeURIComponent r)
             else if leading_ones b = 1 \<or> leading_ones b > 4 then Inl URIError
             else
               (case read_conts (leading_ones b - 1) r of
                  None \<Rightarrow> Inl URIError
                | Some (bs, r') \<Rightarrow>
                    (case utf8_decode (b # bs) of
                       None \<Rightarrow> Inl URIError
                     | Some v \<Rightarrow> prepend (utf16 v) (decodeURIComponent r')))))"
  by pat_completeness auto
termination
  by (relation "measure length")
     (auto dest!: read_pct_length read_conts_length split: if_splits)

text \<open>
  \<open>btoa\<close>: base64 of a string of code units below 256, with padding; any other code
  unit raises \<open>InvalidCharacterError\<close>.
\<close>

definition b64_char :: "nat \<Rightarrow> nat" where
  "b64_char i =
     (if i < 26 then 65 + i
      else if i < 52 then 71 + i
      else if i < 62 then i - 4
      else if i = 62 then 43
      else 47)"

fun b64_encode :: "nat list \<Rightarrow> jsstring" where
  "b64_encode [] = []"
| "b64_encode [a] = [b64_char (a div 4), b64_char (a mod 4 * 16), 61, 61]"
| "b64_encode [a, b] =
     [b64_char (a div 4), b64_char (a mod 4 * 16 + b div 16), b64_char (b mod 16 * 4), 61]"
| "b64_encode (a # b # c # r) =
     b64_char (a div 4) # b64_char (a mod 4 * 16 + b div 16) #
     b64_char (b mod 16 * 4 + c div 64) # b64_char (c mod 64) # b64_encode r"

definition btoa :: "jsstring \<Rightarrow> js_error + jsstring" where
  "btoa s = (if list_all (\<lambda>c. c < 256) s then Inr (b64_encode s) else Inl InvalidCharacterError)"

text \<open>
  \<open>atob\<close>: the forgiving base64 decoding.  ASCII white space is removed; when the
  length is a multiple of four, one or two final \<open>=\<close> are removed; a length of one
  modulo four or a character outside the alphabet raises \<open>InvalidCharacterError\<close>; the
  bits left over after the last whole byte are dropped.
\<close>

definition is_b64 :: "nat \<Rightarrow> bool" where
  "is_b64 c = (is_alnum c \<or> c = 43 \<or> c = 47)"

definition b64_index :: "nat \<Rightarrow> nat" where
  "b64_index c =
     (if is_upper c then c - 65
      else if is_lower c then c - 71
      else if is_digit c then c + 4
      else if c = 43 then 62
      else 63)"

definition is_ascii_ws :: "nat \<Rightarrow> bool" where
  "is_ascii_ws c = (c = 9 \<or> c = 10 \<or> c = 12 \<or> c = 13 \<or> c = 32)"

definition strip_one :: "jsstring \<Rightarrow> jsstring" where
  "strip_one d = (if d \<noteq> [] \<and> last d = 61 then butlast d else d)"

definition strip_padding :: "jsstring \<Rightarrow> jsstring" where
  "strip_padding d = (if d \<noteq> [] \<and> last d = 61 then strip_one (butlast d) else d)"

fun b64_decode :: "nat list \<Rightarrow> nat list" where
  "b64_decode (a # b # c # d # r) =
     (a * 4 + b div 16) # (b mod 16 * 16 + c div 4) # (c mod 4 * 64 + d) # b64_decode r"
| "b64_decode [a, b, c] = [a * 4 + b div 16, b mod 16 * 16 + c div 4]"
| "b64_decode [a, b] = [a * 4 + b div 16]"
| "b64_decode [a] = []"
| "b64_decode [] = []"

definition atob :: "jsstring \<Rightarrow> js_error + jsstring" where
  "atob str =
     (let d = filter (\<lambda>c. \<not> is_ascii_ws c) str;
          d' = (if length d mod 4 = 0 then strip_padding d else d)
      in if length d' mod 4 = 1 then Inl InvalidCharacterError
         else if \<not> list_all is_b64 d' then Inl InvalidCharacterError
         else Inr (b64_decode (map b64_index d')))"

section \<open>The share encoding\<close>

text \<open>
  \<open>encodeState\<close> and \<open>decodeState\<close> of the source: any exception inside gives the
  empty string, respectively \<open>null\<close>.
\<close>

definition encodeState :: "json \<Rightarrow> jsstring" where
  "encodeState s =
     (case encodeURIComponent (JSON_stringify s) of
        Inl e \<Rightarrow> []
      | Inr u \<Rightarrow> (case btoa (unescape u) of Inl e \<Rightarrow> [] | Inr t \<Rightarrow> t))"

definition decodeState :: "jsstring \<Rightarrow> json" where
  "decodeState str =
     (case atob str of
        Inl e \<Rightarrow> JNull
      | Inr b \<Rightarrow>
          (case decodeURIComponent (escape b) of
             Inl e \<Rightarrow> JNull
           | Inr t \<Rightarrow> (case JSON_parse t of Inl e \<Rightarrow> JNull | Inr v \<Rightarrow> v)))"

section \<open>Auxiliary notions\<close>

text \<open>
  Notions used in the proofs about the share encoding: the sextets of a byte string and the
  number of padding characters; strings of bytes; Unicode scalar values and the code points
  of a well-formed string; the escape of one code point by \<open>encodeURIComponent\<close>; strings
  without surrogates; ASCII strings; strings over the base64 alphabet with padding.
\<close>

fun b64_data :: "nat list \<Rightarrow> nat list" where
  "b64_data [] = []"
| "b64_data [a] = [a div 4, a mod 4 * 16]"
| "b64_data [a, b] = [a div 4, a mod 4 * 16 + b div 16, b mod 16 * 4]"
| "b64_data (a # b # c # r) =
     a div 4 # (a mod 4 * 16 + b div 16) # (b mod 16 * 4 + c div 64) # c mod 64 # b64_data r"

fun pad_len :: "nat list \<Rightarrow> nat" where
  "pad_len [] = 0"
| "pad_len [a] = 2"
| "pad_len [a, b] = 1"
| "pad_len (a # b # c # r) = pad_len r"

definition bytes :: "nat list \<Rightarrow> bool" where
  "bytes bs = list_all (\<lambda>b. b < 256) bs"

definition scalar :: "nat \<Rightarrow> bool" where
  "scalar v = (v \<le> 1114111 \<and> \<not> is_lead v \<and> \<not> is_trail v)"

fun code_points :: "jsstring \<Rightarrow> nat list option" where
  "code_points [] = Some []"
| "code_points [c] = (if is_lead c \<or> is_trail c then None else Some [c])"
| "code_points (c # d # cs) =
     (if is_lead c \<and> is_trail d then map_option ((#) (pair_cp c d)) (code_points cs)
      else if is_lead c \<or> is_trail c then None
      else map_option ((#) c) (code_points (d # cs)))"

definition enc_cp :: "nat \<Rightarrow> jsstring" where
  "enc_cp v = (if uri_unreserved v then [v] else concat (map pct (utf8 v)))"

definition plain :: "jsstring \<Rightarrow> bool" where
  "plain xs = list_all (\<lambda>c. \<not> is_lead c \<and> \<not> is_trail c) xs"

definition ascii_only :: "nat list \<Rightarrow> bool" where
  "ascii_only xs = list_all (\<lambda>c. c < 128) xs"


text \<open>
  A string is well formed when it is valid and holds no unpaired surrogate: its code units
  are the UTF-16 form of a sequence of scalar values.
\<close>

definition well_formed :: "jsstring \<Rightarrow> bool" where
  "well_formed t = (valid_string t \<and> code_points t \<noteq> None)"


text \<open>
  The states of the UTF-8 decoder below from which only scalar values come out: the code
  point so far, the number of bytes still needed and the bounds of the next byte, as a lead
  byte and the continuation bytes read so far leave them.
\<close>

definition lossy_ok :: "nat \<Rightarrow> nat \<Rightarrow> nat \<Rightarrow> nat \<Rightarrow> bool" where
  "lossy_ok cp need lo hi =
     (need = 0 \<or>
      (128 \<le> lo \<and> hi \<le> 191 \<and>
       (need = 1 \<and> cp \<le> 17407 \<and> (cp < 864 \<or> 896 \<le> cp) \<or>
        need = 2 \<and> cp \<le> 271 \<and> (cp \<noteq> 13 \<or> hi \<le> 159) \<or>
        need = 3 \<and> cp \<le> 4 \<and> (cp \<le> 3 \<or> hi \<le> 143) \<and> (1 \<le> cp \<or> 142 \<le> lo))))"

section \<open>Bundles, templates and the composed document\<close>

text \<open>
  The three buffers \<open>html\<close>, \<open>css\<close> and \<open>js\<close>.  The editor state below extends this
  record, so every function on bundles applies to the editor state as well.
\<close>

record source_bundle =
  html :: jsstring
  css :: jsstring
  js :: jsstring

definition DEFAULT_TEMPLATE :: source_bundle where
  \<open>DEFAULT_TEMPLATE =
     \<lparr>html = ascii ''<!doctype html>\<newline><html>\<newline>  <head>\<newline>    <meta charset="utf-8" />\<newline>    <meta name="viewport" content="width=device-width, initial-scale=1" />\<newline>    <title>Playground</title>\<newline>  </head>\<newline>  <body>\<newline>    <div id="app">Hello '' @ [8212] @ ascii '' write HTML, CSS & JS!</div>\<newline>  </body>\<newline></html>'',
      css = ascii ''/* Styles go here */\<newline>body { font-family: system-ui, -apple-system, Segoe UI, Roboto, "Helvetica Neue", Arial; padding: 24px; }\<newline>#app { padding: 20px; border-radius: 8px; background: #f7f7f7; }\<newline>'',
      js = ascii ''// JS goes here\<newline>const el = document.getElementById('app');\<newline>el.innerHTML += '<p style="color:green">JS ran</p>';\<newline>''\<rparr>\<close>

definition starter :: source_bundle where
  \<open>starter =
     \<lparr>html = ascii ''<!doctype html>\<newline><html><body><h1>Starter</h1><div id="app"></div></body></html>'',
      css = ascii ''body{font-family:system-ui;padding:20px}'',
      js = ascii ''document.getElementById('app').innerText = 'Starter template loaded';''\<rparr>\<close>

definition reactPlay :: source_bundle where
  \<open>reactPlay =
     \<lparr>html = ascii ''<!doctype html>\<newline><html><body><div id="root"></div><script src="https://unpkg.com/react@18/umd/react.development.js"></script><script src="https://unpkg.com/react-dom@18/umd/react-dom.development.js"></script></body></html>'',
      css = ascii ''/* react play css */'',
      js = ascii ''const e = React.createElement; ReactDOM.createRoot(document.getElementById('root')).render(e('h2', null, 'React in iframe'));''\<rparr>\<close>

text \<open>
  \<open>TEMPLATES[name]\<close> for the values the template selector offers: the three names, and
  the empty string of its placeholder option, for which the lookup is undefined.
\<close>

definition TEMPLATES :: "jsstring \<Rightarrow> source_bundle option" where
  "TEMPLATES name =
     (if name = ascii ''default'' then Some DEFAULT_TEMPLATE
      else if name = ascii ''starter'' then Some starter
      else if name = ascii ''reactPlay'' then Some reactPlay
      else None)"

text \<open>
  The handler of the guard block in the composed document, as the text the composer
  emits: it logs the fault and appends to the body a red \<open>pre\<close> element whose text is
  \<open>e.stack || e.toString()\<close>.
\<close>

definition guard_handler :: jsstring where
  \<open>guard_handler =
     ascii ''console.error(e);\<newline>        const pre = document.createElement('pre');\<newline>        pre.style.color = 'red';\<newline>        pre.textContent = e.stack || e.toString();\<newline>        document.body.appendChild(pre);''\<close>

text \<open>The composer: the template literal of \<open>srcDoc\<close>.\<close>

definition srcDoc :: "'a source_bundle_scheme \<Rightarrow> jsstring" where
  \<open>srcDoc b =
     ascii ''<!doctype html>\<newline><html>\<newline>  <head>\<newline>    <meta charset="utf-8">\<newline>    <meta name="viewport" content="width=device-width, initial-scale=1">\<newline>    <style>''
     @ css b
     @ ascii ''</style>\<newline>  </head>\<newline>  <body>\<newline>    ''
     @ html b
     @ ascii ''\<newline>    <script>\<newline>      try {\<newline>        ''
     @ js b
     @ ascii ''\<newline>      } catch (e) {\<newline>        ''
     @ guard_handler
     @ ascii ''\<newline>      }\<newline>    </script>\<newline>  </body>\<newline></html>''\<close>

text \<open>
  The script element of the composed document is \<open>try { js } catch (e) { handler }\<close>.
  When the preview runs it, the statements of the script buffer run to their end or throw a
  value, and a thrown value is caught and bound to \<open>e\<close>.  Of the caught value the
  handler reads \<open>e.stack\<close> and, when that is undefined or empty, calls
  \<open>e.toString()\<close>.  Reading a property of \<open>null\<close> or \<open>undefined\<close> raises
  \<open>TypeError\<close>; any other value is given by its \<open>stack\<close> (absent, or a string, as
  of an \<open>Error\<close> object) and by the string its \<open>toString\<close> returns (of a thrown
  string the string itself, of an \<open>Error\<close> object its name and message).
\<close>

datatype thrown = ThrownUndefined | ThrownNull | ThrownValue "jsstring option" jsstring

datatype completion = Completes | Throws thrown

text \<open>
  The page in the preview, as far as the handler acts on it: the values given to
  \<open>console.error\<close>, the \<open>pre\<close> elements appended to \<open>document.body\<close> with
  their colour and text, and the errors that left the script element uncaught.
\<close>

record pre_element =
  color :: jsstring
  textContent :: jsstring

record preview_page =
  logged :: "thrown list"
  appended :: "pre_element list"
  uncaught :: "js_error list"

text \<open>
  The handler, statement by statement: \<open>console.error(e)\<close>; a new \<open>pre\<close> element
  with \<open>style.color = 'red'\<close>; its \<open>textContent\<close> becomes
  \<open>e.stack || e.toString()\<close>, where the handler ends with the \<open>TypeError\<close> when
  \<open>e\<close> has no properties; \<open>document.body.appendChild(pre)\<close>.
\<close>

definition catch_handler :: "thrown \<Rightarrow> preview_page \<Rightarrow> preview_page" where
  "catch_handler e p =
     (let p1 = p\<lparr>logged := logged p @ [e]\<rparr>
      in case e of
           ThrownValue st ts \<Rightarrow>
             p1\<lparr>appended := appended p1 @
                  [\<lparr>color = ascii ''red'',
                    textContent = (case st of None \<Rightarrow> ts | Some x \<Rightarrow> if x = [] then ts else x)\<rparr>]\<rparr>
         | _ \<Rightarrow> p1\<lparr>uncaught := uncaught p1 @ [TypeError]\<rparr>)"

definition run_script :: "completion \<Rightarrow> preview_page \<Rightarrow> preview_page" where
  "run_script c p = (case c of Completes \<Rightarrow> p | Throws e \<Rightarrow> catch_handler e p)"

text \<open>The object \<open>{ html, css, js }\<close> that is stringified for sharing.\<close>

definition bundle_json :: "'a source_bundle_scheme \<Rightarrow> json" where
  "bundle_json b =
     JObj [(ascii ''html'', JStr (html b)), (ascii ''css'', JStr (css b)), (ascii ''js'', JStr (js b))]"

definition valid_bundle :: "'a source_bundle_scheme \<Rightarrow> bool" where
  "valid_bundle b = (valid_string (html b) \<and> valid_string (css b) \<and> valid_string (js b))"

section \<open>The share address\<close>

text \<open>
  \<open>generateShareURL\<close> hands the token to \<open>URLSearchParams.set\<close>, and on load the token
  is read with \<open>new URLSearchParams(window.location.search).get("code")\<close>.  Both follow
  the \<open>application/x-www-form-urlencoded\<close> format of the URL standard.

  Serialising: a string is encoded in UTF-8 (an unpaired surrogate as U+FFFD); a space
  becomes \<open>+\<close>, letters, digits and \<open>* - . _\<close> stay, every other byte becomes \<open>%XX\<close>.
\<close>

fun usv_utf8 :: "jsstring \<Rightarrow> nat list" where
  "usv_utf8 [] = []"
| "usv_utf8 [c] = (if is_lead c \<or> is_trail c then utf8 65533 else utf8 c)"
| "usv_utf8 (c # d # cs) =
     (if is_lead c \<and> is_trail d then utf8 (pair_cp c d) @ usv_utf8 cs
      else if is_lead c \<or> is_trail c then utf8 65533 @ usv_utf8 (d # cs)
      else utf8 c @ usv_utf8 (d # cs))"

definition form_byte :: "nat \<Rightarrow> jsstring" where
  "form_byte b =
     (if b = 32 then [43]
      else if is_alnum b \<or> b = 42 \<or> b = 45 \<or> b = 46 \<or> b = 95 then [b]
      else pct b)"

definition form_encode :: "jsstring \<Rightarrow> jsstring" where
  "form_encode s = concat (map form_byte (usv_utf8 s))"

fun serialize_params :: "(jsstring \<times> jsstring) list \<Rightarrow> jsstring" where
  "serialize_params [] = []"
| "serialize_params [(n, v)] = form_encode n @ 61 # form_encode v"
| "serialize_params ((n, v) # p # ps) =
     form_encode n @ 61 # form_encode v @ 38 # serialize_params (p # ps)"

text \<open>
  \<open>searchParams.set(n, v)\<close>: the first pair named \<open>n\<close> takes the value and the other
  pairs named \<open>n\<close> go; without such a pair, the new pair is added at the end.
\<close>

fun params_set :: "jsstring \<Rightarrow> jsstring \<Rightarrow> (jsstring \<times> jsstring) list \<Rightarrow> (jsstring \<times> jsstring) list" where
  "params_set n v [] = [(n, v)]"
| "params_set n v ((n', v') # ps) =
     (if n' = n then (n, v) # filter (\<lambda>p. fst p \<noteq> n) ps else (n', v') # params_set n v ps)"

text \<open>
  Parsing: the text is split at \<open>&\<close>, an empty piece is skipped, a piece is split at its
  first \<open>=\<close>; in name and value \<open>+\<close> becomes a space, \<open>%XX\<close> becomes the byte it
  names (any other \<open>%\<close> stays), and the bytes are decoded as UTF-8, an ill-formed
  sequence giving U+FFFD.  \<open>utf8_lossy cp need lo hi\<close> is the decoder of the Encoding
  standard: the code point so far, the continuation bytes still needed, and the bounds of
  the next byte.
\<close>

fun percent_decode :: "nat list \<Rightarrow> nat list" where
  "percent_decode (p # a # b # r) =
     (if p = 37 then
        (case (hex_val a, hex_val b) of
           (Some x, Some y) \<Rightarrow> (16 * x + y) # percent_decode r
         | _ \<Rightarrow> p # percent_decode (a # b # r))
      else p # percent_decode (a # b # r))"
| "percent_decode (p # r) = p # percent_decode r"
| "percent_decode [] = []"

function utf8_lossy :: "nat \<Rightarrow> nat \<Rightarrow> nat \<Rightarrow> nat \<Rightarrow> nat list \<Rightarrow> nat list" where
  "utf8_lossy cp need lo hi [] = (if need = 0 then [] else [65533])"
| "utf8_lossy cp need lo hi (b # bs) =
     (if need = 0 then
        (if b < 128 then b # utf8_lossy 0 0 128 191 bs
         else if 194 \<le> b \<and> b \<le> 223 then utf8_lossy (b - 192) 1 128 191 bs
         else if 224 \<le> b \<and> b \<le> 239 then
           utf8_lossy (b - 224) 2 (if b = 224 then 160 else 128) (if b = 237 then 159 else 191) bs
         else if 240 \<le> b \<and> b \<le> 244 then
           utf8_lossy (b - 240) 3 (if b = 240 then 144 else 128) (if b = 244 then 143 else 191) bs
         else 65533 # utf8_lossy 0 0 128 191 bs)
      else if b < lo \<or> hi < b then 65533 # utf8_lossy 0 0 128 191 (b # bs)
      else if need = 1 then (cp * 64 + (b - 128)) # utf8_lossy 0 0 128 191 bs
      else utf8_lossy (cp * 64 + (b - 128)) (need - 1) 128 191 bs)"
  by pat_completeness auto
termination
  by (relation "measure (\<lambda>(cp, need, lo, hi, bs). 2 * length bs + (if need = 0 then 0 else 1))")
     auto

definition form_decode :: "nat list \<Rightarrow> jsstring" where
  "form_decode bs =
     concat (map utf16
       (utf8_lossy 0 0 128 191 (percent_decode (map (\<lambda>b. if b = 43 then 32 else b) bs))))"

fun split_amp :: "nat list \<Rightarrow> nat list \<Rightarrow> nat list list" where
  "split_amp cur [] = [rev cur]"
| "split_amp cur (b # bs) = (if b = 38 then rev cur # split_amp [] bs else split_amp (b # cur) bs)"

definition parse_pair :: "nat list \<Rightarrow> jsstring \<times> jsstring" where
  "parse_pair bs =
     (form_decode (takeWhile (\<lambda>b. b \<noteq> 61) bs), form_decode (drop 1 (dropWhile (\<lambda>b. b \<noteq> 61) bs)))"

definition parse_urlencoded :: "nat list \<Rightarrow> (jsstring \<times> jsstring) list" where
  "parse_urlencoded bs = map parse_pair (filter (\<lambda>s. s \<noteq> []) (split_amp [] bs))"



text \<open>
  The text a browser reads from the bytes of a UTF-8 file or field: the UTF-8 decoder above,
  its scalar values written in UTF-16.
\<close>

definition utf8_text :: "nat list \<Rightarrow> jsstring" where
  "utf8_text bs = concat (map utf16 (utf8_lossy 0 0 128 191 bs))"

text \<open>
  The address of the page, as the \<open>URL\<close> object holds it: what precedes the query, the
  query (absent, or its text without the \<open>?\<close>), and the fragment with its \<open>#\<close>.
  \<open>search\<close> is the \<open>search\<close> getter (\<open>location.search\<close> of a page at that
  address), \<open>href\<close> the whole address.
\<close>

record address =
  origin_path :: jsstring
  query :: "jsstring option"
  hash :: jsstring


definition href :: "address \<Rightarrow> jsstring" where
  "href u = origin_path u @ (case query u of None \<Rightarrow> [] | Some q \<Rightarrow> 63 # q) @ hash u"

text \<open>
  \<open>u.searchParams\<close>: the pairs parsed from the query of the address.  After a change of
  the pairs the query of the address is their serialisation, or absent when that is empty.
\<close>

definition searchParams :: "address \<Rightarrow> (jsstring \<times> jsstring) list" where
  "searchParams u =
     parse_urlencoded (usv_utf8 (case query u of None \<Rightarrow> [] | Some q \<Rightarrow> q))"

definition update_query :: "(jsstring \<times> jsstring) list \<Rightarrow> address \<Rightarrow> address" where
  "update_query ps u =
     u\<lparr>query := (if serialize_params ps = [] then None else Some (serialize_params ps))\<rparr>"

text \<open>
  \<open>generateShareURL\<close> for the page at address \<open>u\<close>: \<open>share_address\<close> is the
  \<open>URL\<close> object after \<open>u.searchParams.set("code", code)\<close>, and the result is its
  \<open>toString()\<close>.  \<open>urlCode_of\<close> is the value of \<open>urlCode\<close> on a page whose
  \<open>location.search\<close> is \<open>srch\<close>.
\<close>

definition share_address :: "address \<Rightarrow> 'a source_bundle_scheme \<Rightarrow> address" where
  "share_address u s =
     update_query (params_set (ascii ''code'') (encodeState (bundle_json s)) (searchParams u)) u"

definition generateShareURL :: "address \<Rightarrow> 'a source_bundle_scheme \<Rightarrow> jsstring" where
  "generateShareURL u s = href (share_address u s)"



text \<open>
  A bundle whose token holds a \<open>+\<close>, and the address of a page that was opened from a
  share link and carries a second parameter.
\<close>

definition b_gt :: source_bundle where
  "b_gt = \<lparr>html = ascii ''ab>'', css = [], js = []\<rparr>"

definition example_address :: address where
  "example_address =
     \<lparr>origin_path = ascii ''https://example.org/editor'',
      query = Some (ascii ''theme=dark&code=eyJodG1sIjoiQSJ9''), hash = ascii ''#top''\<rparr>"

section \<open>Local storage\<close>

text \<open>
  The key-value store of the browser.  Reaching it raises \<open>SecurityError\<close> when storage
  is not available to the page; \<open>setItem\<close> raises \<open>QuotaExceededError\<close> when the new
  contents would exceed the quota.
\<close>

record storage =
  available :: bool
  quota :: nat
  items :: "(jsstring \<times> jsstring) list"

definition stored_size :: "(jsstring \<times> jsstring) list \<Rightarrow> nat" where
  "stored_size kvs = sum_list (map (\<lambda>kv. length (fst kv) + length (snd kv)) kvs)"

fun put_item :: "jsstring \<Rightarrow> jsstring \<Rightarrow> (jsstring \<times> jsstring) list \<Rightarrow> (jsstring \<times> jsstring) list" where
  "put_item k v [] = [(k, v)]"
| "put_item k v ((k', v') # kvs) =
     (if k = k' then (k, v) # kvs else (k', v') # put_item k v kvs)"

definition getItem :: "storage \<Rightarrow> jsstring \<Rightarrow> js_error + jsstring option" where
  "getItem st k = (if available st then Inr (map_of (items st) k) else Inl SecurityError)"

definition setItem :: "storage \<Rightarrow> jsstring \<Rightarrow> jsstring \<Rightarrow> js_error + storage" where
  "setItem st k v =
     (if \<not> available st then Inl SecurityError
      else if quota st < stored_size (put_item k v (items st)) then Inl QuotaExceededError
      else Inr (st\<lparr>items := put_item k v (items st)\<rparr>))"

section \<open>Restoring the buffers on load\<close>

text \<open>
  A property read gives \<open>None\<close> for \<open>undefined\<close>.  Only an object has the properties
  \<open>html\<close>, \<open>css\<close> and \<open>js\<close>; \<open>v?.f\<close> is \<open>undefined\<close> when \<open>v\<close> is \<open>null\<close>, and
  \<open>a ?? b\<close> is \<open>b\<close> when \<open>a\<close> is \<open>null\<close> or \<open>undefined\<close>.
\<close>

definition get_prop :: "json \<Rightarrow> jsstring \<Rightarrow> json option" where
  "get_prop v f = (case v of JObj kvs \<Rightarrow> map_of kvs f | _ \<Rightarrow> None)"

definition opt_chain :: "json \<Rightarrow> jsstring \<Rightarrow> json option" where
  "opt_chain v f = (if v = JNull then None else get_prop v f)"

definition nullish :: "json option \<Rightarrow> json option \<Rightarrow> json option" where
  "nullish a b = (case a of None \<Rightarrow> b | Some v \<Rightarrow> if v = JNull then b else Some v)"

text \<open>
  \<open>urlCode\<close> is the value of the query parameter \<open>code\<close>, \<open>None\<close> when the address has
  none; the empty string is falsy.
\<close>

definition fromUrl :: "jsstring option \<Rightarrow> json" where
  "fromUrl urlCode =
     (case urlCode of None \<Rightarrow> JNull | Some c \<Rightarrow> if c = [] then JNull else decodeState c)"

definition fromStorage :: "storage \<Rightarrow> jsstring \<Rightarrow> json" where
  "fromStorage st storageKey =
     (case getItem st storageKey of
        Inl e \<Rightarrow> JNull
      | Inr None \<Rightarrow> JNull
      | Inr (Some raw) \<Rightarrow>
          if raw = [] then JNull
          else (case JSON_parse raw of Inl e \<Rightarrow> JNull | Inr v \<Rightarrow> v))"

text \<open>
  The initial value of one buffer: \<open>fromUrl?.f ?? fromStorage?.f ?? initial.f ?? d\<close>, where
  \<open>initial\<close> is the object passed as the \<open>initial\<close> prop (\<open>{}\<close> when the prop is absent).
\<close>

definition initial_field ::
  "jsstring \<Rightarrow> json \<Rightarrow> json \<Rightarrow> (jsstring \<times> json) list \<Rightarrow> jsstring \<Rightarrow> json option" where
  "initial_field f u st initial d =
     nullish (nullish (nullish (opt_chain u f) (opt_chain st f)) (get_prop (JObj initial) f))
       (Some (JStr d))"

record initial_buffers =
  html0 :: "json option"
  css0 :: "json option"
  js0 :: "json option"

definition restore ::
  "jsstring option \<Rightarrow> storage \<Rightarrow> jsstring \<Rightarrow> (jsstring \<times> json) list \<Rightarrow> initial_buffers" where
  "restore urlCode st storageKey initial =
     (let u = fromUrl urlCode; l = fromStorage st storageKey
      in \<lparr>html0 = initial_field (ascii ''html'') u l initial (html DEFAULT_TEMPLATE),
          css0 = initial_field (ascii ''css'') u l initial (css DEFAULT_TEMPLATE),
          js0 = initial_field (ascii ''js'') u l initial (js DEFAULT_TEMPLATE)\<rparr>)"

text \<open>The bundle a JSON value carries, when it is an object with the three fields as strings.\<close>

definition as_bundle :: "json \<Rightarrow> source_bundle option" where
  "as_bundle v =
     (case (get_prop v (ascii ''html''), get_prop v (ascii ''css''), get_prop v (ascii ''js'')) of
        (Some (JStr h), Some (JStr c), Some (JStr j)) \<Rightarrow> Some \<lparr>html = h, css = c, js = j\<rparr>
      | _ \<Rightarrow> None)"

definition buffers_of :: "source_bundle \<Rightarrow> initial_buffers" where
  "buffers_of b = \<lparr>html0 = Some (JStr (html b)), css0 = Some (JStr (css b)), js0 = Some (JStr (js b))\<rparr>"

text \<open>
  The whole-bundle reading of the specification, for comparison with \<open>restore\<close>: the
  fields of the decoded token when the token decodes, else the fields of the snapshot when
  it is there and parses, else the default bundle.
\<close>

definition fields_of :: "json \<Rightarrow> initial_buffers" where
  "fields_of v =
     \<lparr>html0 = get_prop v (ascii ''html''), css0 = get_prop v (ascii ''css''),
      js0 = get_prop v (ascii ''js'')\<rparr>"

definition spec_restore_whole :: "jsstring option \<Rightarrow> storage \<Rightarrow> jsstring \<Rightarrow> initial_buffers" where
  "spec_restore_whole urlCode st key =
     (if fromUrl urlCode \<noteq> JNull then fields_of (fromUrl urlCode)
      else if fromStorage st key \<noteq> JNull then fields_of (fromStorage st key)
      else buffers_of DEFAULT_TEMPLATE)"

text \<open>
  The priority list of one field: the first value that is neither \<open>undefined\<close> nor
  \<open>null\<close>, else the default.  A source gives no field when each of its three fields is
  \<open>undefined\<close> or \<open>null\<close>.
\<close>

fun first_usable :: "json option list \<Rightarrow> json \<Rightarrow> json" where
  "first_usable [] d = d"
| "first_usable (None # xs) d = first_usable xs d"
| "first_usable (Some v # xs) d = (if v = JNull then first_usable xs d else v)"

definition unusable :: "json option \<Rightarrow> bool" where
  "unusable x = (case x of None \<Rightarrow> True | Some v \<Rightarrow> v = JNull)"

definition no_field :: "json \<Rightarrow> bool" where
  "no_field v =
     (unusable (opt_chain v (ascii ''html'')) \<and> unusable (opt_chain v (ascii ''css'')) \<and>
      unusable (opt_chain v (ascii ''js'')))"

text \<open>A store that holds one item, and one that cannot be reached.\<close>

definition store_with :: "jsstring \<Rightarrow> jsstring \<Rightarrow> storage" where
  "store_with k raw = \<lparr>available = True, quota = 5000000, items = [(k, raw)]\<rparr>"

definition no_store :: storage where
  "no_store = \<lparr>available = False, quota = 0, items = []\<rparr>"

text \<open>
  Tokens and snapshots used in the examples: \<open>btoa\<close> of \<open>{"html":"A"}\<close> and of
  \<open>{"html":"A","css":"B","js":"C"}\<close>, a saved snapshot, a snapshot with one field,
  and a snapshot cut short.
\<close>

definition token_A :: jsstring where
  "token_A = ascii ''eyJodG1sIjoiQSJ9''"

definition token_ABC :: jsstring where
  "token_ABC = ascii ''eyJodG1sIjoiQSIsImNzcyI6IkIiLCJqcyI6IkMifQ==''"

definition snapshot_XYZ :: jsstring where
  \<open>snapshot_XYZ = ascii ''{"html":"X","css":"Y","js":"Z","updatedAt":"2026-01-01T00:00:00.000Z"}''\<close>

definition snapshot_css :: jsstring where
  \<open>snapshot_css = ascii ''{"css":"Y"}''\<close>

definition snapshot_cut :: jsstring where
  \<open>snapshot_cut = ascii ''{"html":"X","css":"Y","js''\<close>

section \<open>The editor component\<close>

datatype lang = Html | Css | Js

text \<open>
  What the preview surface shows is recorded as the list of the documents it was given:
  by \<open>doc.open(); doc.write(d); doc.close()\<close>, by a change of the \<open>srcDoc\<close> attribute of
  the \<open>iframe\<close>, or by the removal of that attribute (the frame then loads a blank page).
\<close>

datatype render = DocWrite jsstring | SrcDocLoad jsstring | BlankLoad

datatype log_entry = Warn jsstring js_error

text \<open>
  The state of the component and of the part of the page it acts on.  \<open>clock\<close> is the
  time in milliseconds; \<open>debounce\<close> is the pending timeout of the debounce effect, with the
  time it is due and the document its closure holds; \<open>mountRefresh\<close> is the pending
  timeout that the effect of the first render sets when the address carried a share token;
  \<open>iframeDoc\<close> says that \<open>iframeRef.current.contentWindow.document\<close> is there.
  The layout is left out: it selects the style classes and whether the editor pane is
  shown, and the preview frame is rendered in every layout.
\<close>

record editor = source_bundle +
  activeEditor :: lang
  autoUpdate :: bool
  lastSavedAt :: "jsstring option"
  storageKey :: jsstring
  localStorage :: storage
  console :: "log_entry list"
  clock :: nat
  debounce :: "(nat \<times> jsstring) option"
  mountRefresh :: "(nat \<times> jsstring) option"
  iframeDoc :: bool
  surface :: "render list"

text \<open>The \<open>srcDoc\<close> attribute the component gives the \<open>iframe\<close>.\<close>

definition iframe_srcDoc :: "editor \<Rightarrow> jsstring option" where
  "iframe_srcDoc s = (if autoUpdate s then None else Some (srcDoc s))"

text \<open>
  A state update re-renders the component.  \<open>commit old s\<close> is what follows the update
  from \<open>old\<close> to \<open>s\<close>: the attribute of the \<open>iframe\<close> is set again when its value has
  changed, which loads the frame; and when \<open>srcDoc\<close> or \<open>autoUpdate\<close> has changed, the
  debounce effect is cleaned up (its timeout is cleared) and run again (a timeout of 300 ms
  is set when \<open>autoUpdate\<close> is on).
\<close>

definition load_attr :: "editor \<Rightarrow> editor \<Rightarrow> editor" where
  "load_attr old s =
     (if iframe_srcDoc s = iframe_srcDoc old then s
      else s\<lparr>surface := surface s @
             [case iframe_srcDoc s of None \<Rightarrow> BlankLoad | Some d \<Rightarrow> SrcDocLoad d]\<rparr>)"

definition run_effect :: "editor \<Rightarrow> editor \<Rightarrow> editor" where
  "run_effect old s =
     (if srcDoc s = srcDoc old \<and> autoUpdate s = autoUpdate old then s
      else s\<lparr>debounce := (if autoUpdate s then Some (clock s + 300, srcDoc s) else None)\<rparr>)"

definition commit :: "editor \<Rightarrow> editor \<Rightarrow> editor" where
  "commit old s = run_effect old (load_attr old s)"

text \<open>Writing a document into the frame, when its document is there.\<close>

definition write_doc :: "jsstring \<Rightarrow> editor \<Rightarrow> editor" where
  "write_doc d s = (if iframeDoc s then s\<lparr>surface := surface s @ [DocWrite d]\<rparr> else s)"

definition refreshPreview :: "editor \<Rightarrow> editor" where
  "refreshPreview s = write_doc (srcDoc s) s"

text \<open>The \<open>onChange\<close> handler of the editor widget: \<open>v || ''\<close> goes to the active buffer.\<close>

definition onChange :: "jsstring option \<Rightarrow> editor \<Rightarrow> editor" where
  "onChange v s =
     (let t = (case v of None \<Rightarrow> [] | Some x \<Rightarrow> x)
      in commit s (case activeEditor s of
                     Html \<Rightarrow> s\<lparr>html := t\<rparr>
                   | Css \<Rightarrow> s\<lparr>css := t\<rparr>
                   | Js \<Rightarrow> s\<lparr>js := t\<rparr>))"

definition setActiveEditor :: "lang \<Rightarrow> editor \<Rightarrow> editor" where
  "setActiveEditor l s = commit s (s\<lparr>activeEditor := l\<rparr>)"

definition toggleAuto :: "editor \<Rightarrow> editor" where
  "toggleAuto s = commit s (s\<lparr>autoUpdate := \<not> autoUpdate s\<rparr>)"

definition applyTemplate :: "jsstring \<Rightarrow> editor \<Rightarrow> editor" where
  "applyTemplate name s =
     (case TEMPLATES name of
        None \<Rightarrow> s
      | Some t \<Rightarrow> commit s (s\<lparr>html := html t, css := css t, js := js t\<rparr>))"

definition clear :: "editor \<Rightarrow> editor" where
  "clear s = commit s (s\<lparr>html := [], css := [], js := []\<rparr>)"

text \<open>
  \<open>saveToLocal\<close>; \<open>t1\<close> and \<open>t2\<close> are the two readings of \<open>new Date().toISOString()\<close>.
\<close>

definition payload :: "jsstring \<Rightarrow> editor \<Rightarrow> json" where
  "payload t s =
     JObj [(ascii ''html'', JStr (html s)), (ascii ''css'', JStr (css s)),
           (ascii ''js'', JStr (js s)), (ascii ''updatedAt'', JStr t)]"

definition saveToLocal :: "jsstring \<Rightarrow> jsstring \<Rightarrow> editor \<Rightarrow> editor" where
  "saveToLocal t1 t2 s =
     (case setItem (localStorage s) (storageKey s) (JSON_stringify (payload t1 s)) of
        Inl e \<Rightarrow> s\<lparr>console := console s @ [Warn (ascii ''Could not save:'') e]\<rparr>
      | Inr st \<Rightarrow> commit s (s\<lparr>localStorage := st, lastSavedAt := Some t2\<rparr>))"

text \<open>
  \<open>downloadProject\<close>: the file handed to the browser.  Its content is the bytes of
  \<open>new Blob([fileContent])\<close>: the string part of a blob is encoded in UTF-8, an unpaired
  surrogate as U+FFFD.
\<close>

record download =
  filename :: jsstring
  mime :: jsstring
  content :: "nat list"

definition Blob :: "jsstring \<Rightarrow> nat list" where
  "Blob part = usv_utf8 part"

definition downloadProject :: "editor \<Rightarrow> download" where
  "downloadProject s =
     \<lparr>filename = ascii ''playground.html'', mime = ascii ''text/html'',
      content = Blob (srcDoc s)\<rparr>"

text \<open>
  Time passes: the timeouts that are due run, the one of the first render before the
  debounced one (it is due 50 ms after the first render, any debounced one no earlier
  than 300 ms after it).
\<close>

definition fire_mount :: "nat \<Rightarrow> editor \<Rightarrow> editor" where
  "fire_mount t s =
     (case mountRefresh s of
        None \<Rightarrow> s
      | Some (due, d) \<Rightarrow> if due \<le> t then write_doc d (s\<lparr>mountRefresh := None\<rparr>) else s)"

definition fire_debounce :: "nat \<Rightarrow> editor \<Rightarrow> editor" where
  "fire_debounce t s =
     (case debounce s of
        None \<Rightarrow> s
      | Some (due, d) \<Rightarrow> if due \<le> t then write_doc d (s\<lparr>debounce := None\<rparr>) else s)"

definition tick :: "nat \<Rightarrow> editor \<Rightarrow> editor" where
  "tick d s = (fire_debounce (clock s + d) (fire_mount (clock s + d) s))\<lparr>clock := clock s + d\<rparr>"

text \<open>
  The component after its first render, at time \<open>now\<close>, with the buffers \<open>b\<close>;
  \<open>shared\<close> says that \<open>fromUrl\<close> was truthy.
\<close>

definition mount :: "source_bundle \<Rightarrow> bool \<Rightarrow> jsstring \<Rightarrow> storage \<Rightarrow> nat \<Rightarrow> editor" where
  "mount b shared key st now =
     \<lparr>html = html b, css = css b, js = js b,
      activeEditor = Html, autoUpdate = True, lastSavedAt = None,
      storageKey = key, localStorage = st, console = [], clock = now,
      debounce = Some (now + 300, srcDoc b),
      mountRefresh = (if shared then Some (now + 50, srcDoc b) else None),
      iframeDoc = True, surface = []\<rparr>"

text \<open>The user's actions and the passing of time, and a run of them.\<close>

datatype event =
    Change "jsstring option"
  | SetActiveEditor lang
  | ToggleAuto
  | Refresh
  | Save jsstring jsstring
  | ApplyTemplate jsstring
  | Clear
  | Tick nat

fun step :: "editor \<Rightarrow> event \<Rightarrow> editor" where
  "step s (Change v) = onChange v s"
| "step s (SetActiveEditor l) = setActiveEditor l s"
| "step s ToggleAuto = toggleAuto s"
| "step s Refresh = refreshPreview s"
| "step s (Save t1 t2) = saveToLocal t1 t2 s"
| "step s (ApplyTemplate name) = applyTemplate name s"
| "step s Clear = clear s"
| "step s (Tick d) = tick d s"

definition run :: "editor \<Rightarrow> event list \<Rightarrow> editor" where
  "run s es = foldl step s es"

text \<open>
  The text the editor widget shows for a language (its \<open>value\<close> prop), and the text
  \<open>v || ''\<close> an edit stores.
\<close>

definition buffer :: "lang \<Rightarrow> 'a source_bundle_scheme \<Rightarrow> jsstring" where
  "buffer l s = (case l of Html \<Rightarrow> html s | Css \<Rightarrow> css s | Js \<Rightarrow> js s)"

definition text_of :: "jsstring option \<Rightarrow> jsstring" where
  "text_of v = (case v of None \<Rightarrow> [] | Some x \<Rightarrow> x)"

text \<open>
  A burst of edits: each edit comes \<open>gap\<close> milliseconds after the one before, selects a
  language and changes its text.
\<close>

definition burst :: "(nat \<times> lang \<times> jsstring option) list \<Rightarrow> event list" where
  "burst es = concat (map (\<lambda>(gap, l, v). [Tick gap, SetActiveEditor l, Change v]) es)"

text \<open>
  The buffers that a list of edits leaves: each edit puts its text into the buffer of its
  language, so that a buffer holds the text of the latest edit made to it.
\<close>

definition put_text :: "lang \<Rightarrow> jsstring \<Rightarrow> 'a source_bundle_scheme \<Rightarrow> 'a source_bundle_scheme" where
  "put_text l t b = (case l of Html \<Rightarrow> b\<lparr>html := t\<rparr> | Css \<Rightarrow> b\<lparr>css := t\<rparr> | Js \<Rightarrow> b\<lparr>js := t\<rparr>)"

definition edited ::
  "(lang \<times> jsstring option) list \<Rightarrow> 'a source_bundle_scheme \<Rightarrow> 'a source_bundle_scheme" where
  "edited es b = foldl (\<lambda>b (l, v). put_text l (text_of v) b) b es"

definition bundle_of :: "'a source_bundle_scheme \<Rightarrow> source_bundle" where
  "bundle_of b = \<lparr>html = html b, css = css b, js = js b\<rparr>"

text \<open>
  The state during a burst that began at time \<open>t0\<close> with the surface at \<open>sf\<close>: nothing
  has been rendered since, and the debounce timeout is pending for the current document.
\<close>

definition pending :: "nat \<Rightarrow> render list \<Rightarrow> editor \<Rightarrow> bool" where
  "pending t0 sf s =
     (autoUpdate s \<and> iframeDoc s \<and> mountRefresh s = None \<and> surface s = sf \<and>
      (case debounce s of
         None \<Rightarrow> False
       | Some (due, d) \<Rightarrow> d = srcDoc s \<and> t0 + 300 \<le> due \<and> due \<le> clock s + 300))"

text \<open>The editor used in the examples: the starter template, just loaded without a token.\<close>

definition example_editor :: editor where
  "example_editor = mount starter False (ascii ''online-code-editor-v1'') no_store 0"

text \<open>The editor just loaded from a share link that holds the starter template.\<close>

definition shared_editor :: editor where
  "shared_editor = mount starter True (ascii ''online-code-editor-v1'') no_store 0"

text \<open>
  The editor with the default template, whose markup holds a dash outside ASCII, and one
  whose markup holds an unpaired surrogate.
\<close>

definition default_editor :: editor where
  "default_editor = mount DEFAULT_TEMPLATE False (ascii ''online-code-editor-v1'') no_store 0"

definition b_lone :: source_bundle where
  "b_lone = \<lparr>html = [97, 55296, 98], css = [], js = []\<rparr>"

definition lone_editor :: editor where
  "lone_editor = mount b_lone False (ascii ''online-code-editor-v1'') no_store 0"


section \<open>The composed document\<close>

lemma srcDoc_style:
  \<open>srcDoc b = ascii ''<!doctype html>\<newline><html>\<newline>  <head>\<newline>    <meta charset="utf-8">\<newline>    <meta name="viewport" content="width=device-width, initial-scale=1">\<newline>    '' @ (ascii ''<style>'' @ css b @ ascii ''</style>'') @ (ascii ''\<newline>  </head>\<newline>  <body>\<newline>    '' @ html b @ ascii ''\<newline>    <script>\<newline>      try {\<newline>        '' @ js b @ ascii ''\<newline>      } catch (e) {\<newline>        '' @ guard_handler @ ascii ''\<newline>      }\<newline>    </script>\<newline>  </body>\<newline></html>'')\<close>
  by (simp add: srcDoc_def ascii_def)

lemma srcDoc_body:
  \<open>srcDoc b = (ascii ''<!doctype html>\<newline><html>\<newline>  <head>\<newline>    <meta charset="utf-8">\<newline>    <meta name="viewport" content="width=device-width, initial-scale=1">\<newline>    <style>'' @ css b @ ascii ''</style>\<newline>  </head>\<newline>  '') @ (ascii ''<body>\<newline>    '' @ html b @ ascii ''\<newline>    <script>'') @ (ascii ''\<newline>      try {\<newline>        '' @ js b @ ascii ''\<newline>      } catch (e) {\<newline>        '' @ guard_handler @ ascii ''\<newline>      }\<newline>    </script>\<newline>  </body>\<newline></html>'')\<close>
  by (simp add: srcDoc_def ascii_def)

lemma srcDoc_script_literal:
  \<open>srcDoc b = (ascii ''<!doctype html>\<newline><html>\<newline>  <head>\<newline>    <meta charset="utf-8">\<newline>    <meta name="viewport" content="width=device-width, initial-scale=1">\<newline>    <style>'' @ css b @ ascii ''</style>\<newline>  </head>\<newline>  <body>\<newline>    '' @ html b @ ascii ''\<newline>    '') @ (ascii ''<script>\<newline>      try {\<newline>        '' @ js b @ ascii ''\<newline>      } catch (e) {\<newline>        console.error(e);\<newline>        const pre = document.createElement('pre');\<newline>        pre.style.color = 'red';\<newline>        pre.textContent = e.stack || e.toString();\<newline>        document.body.appendChild(pre);\<newline>      }\<newline>    </script>'') @ ascii ''\<newline>  </body>\<newline></html>''\<close>
  by (simp add: srcDoc_def guard_handler_def ascii_def)

lemma srcDoc_length:
  "length (srcDoc b) = length (css b) + length (html b) + length (js b) + 470"
  by (simp add: srcDoc_def guard_handler_def ascii_def)

text \<open>
  The composed document is one string for every bundle: the style buffer stands between
  \<open><style>\<close> and \<open></style>\<close>, the markup buffer stands in the body, in front of
  the script element, and the script buffer stands inside the guard block; the composer is
  a plain function of the three buffers with no failing branch, and its result is the
  three buffers and 470 fixed characters.
\<close>

lemma srcDoc_embeds:
  \<open>sublist (ascii ''<style>'' @ css b @ ascii ''</style>'') (srcDoc b) \<and>
   sublist (ascii ''<body>\<newline>    '' @ html b @ ascii ''\<newline>    <script>'') (srcDoc b) \<and>
   sublist (ascii ''<script>\<newline>      try {\<newline>        '' @ js b @ ascii ''\<newline>      } catch (e) {\<newline>        console.error(e);\<newline>        const pre = document.createElement('pre');\<newline>        pre.style.color = 'red';\<newline>        pre.textContent = e.stack || e.toString();\<newline>        document.body.appendChild(pre);\<newline>      }\<newline>    </script>'') (srcDoc b) \<and>
   length (srcDoc b) = length (css b) + length (html b) + length (js b) + 470 \<and>
   srcDoc b = srcDoc \<lparr>html = html b, css = css b, js = js b\<rparr>\<close>
proof -
  have "sublist (ascii ''<style>'' @ css b @ ascii ''</style>'') (srcDoc b)"
    unfolding srcDoc_style [of b] by (rule sublist_appendI)
  moreover have "sublist (ascii ''<body>\<newline>    '' @ html b @ ascii ''\<newline>    <script>'') (srcDoc b)"
    unfolding srcDoc_body [of b] by (rule sublist_appendI)
  moreover have \<open>sublist (ascii ''<script>\<newline>      try {\<newline>        '' @ js b @ ascii ''\<newline>      } catch (e) {\<newline>        console.error(e);\<newline>        const pre = document.createElement('pre');\<newline>        pre.style.color = 'red';\<newline>        pre.textContent = e.stack || e.toString();\<newline>        document.body.appendChild(pre);\<newline>      }\<newline>    </script>'') (srcDoc b)\<close>
    unfolding srcDoc_script_literal [of b] by (rule sublist_appendI)
  moreover have "srcDoc b = srcDoc \<lparr>html = html b, css = css b, js = js b\<rparr>"
    by (simp add: srcDoc_def)
  ultimately show ?thesis using srcDoc_length [of b] by blast
qed

text \<open>
  A caught value other than \<open>null\<close> and \<open>undefined\<close> is logged and rendered: one
  red \<open>pre\<close> element is appended to the body, with the stack of the value or, without
  one, the text of the value; nothing leaves the script uncaught.
\<close>

lemma catch_handler_renders:
  "run_script (Throws (ThrownValue st ts)) p =
     p\<lparr>logged := logged p @ [ThrownValue st ts],
       appended := appended p @
         [\<lparr>color = ascii ''red'',
           textContent = (case st of None \<Rightarrow> ts | Some x \<Rightarrow> if x = [] then ts else x)\<rparr>]\<rparr> \<and>
   uncaught (run_script (Throws (ThrownValue st ts)) p) = uncaught p \<and>
   run_script Completes p = p"
  by (simp add: run_script_def catch_handler_def)

text \<open>
  C4. The composer puts the script buffer into the guard block, whose handler is the text
  spelled out below.  For the script \<open>throw null;\<close> (and likewise for
  \<open>throw undefined;\<close>) the handler is given a value without properties: it logs the
  value, and reading \<open>e.stack\<close> raises \<open>TypeError\<close> inside the handler, so that
  the error leaves the script element uncaught and nothing is appended to the body.
\<close>

theorem guard_handler_fails_on_null:
  \<open>sublist (ascii ''<script>\<newline>      try {\<newline>        throw null;\<newline>      } catch (e) {\<newline>        console.error(e);\<newline>        const pre = document.createElement('pre');\<newline>        pre.style.color = 'red';\<newline>        pre.textContent = e.stack || e.toString();\<newline>        document.body.appendChild(pre);\<newline>      }\<newline>    </script>'')
     (srcDoc (starter\<lparr>js := ascii ''throw null;''\<rparr>)) \<and>
   run_script (Throws ThrownNull) p =
     p\<lparr>logged := logged p @ [ThrownNull], uncaught := uncaught p @ [TypeError]\<rparr> \<and>
   appended (run_script (Throws ThrownNull) p) = appended p \<and>
   run_script (Throws ThrownUndefined) p =
     p\<lparr>logged := logged p @ [ThrownUndefined], uncaught := uncaught p @ [TypeError]\<rparr> \<and>
   appended (run_script (Throws ThrownUndefined) p) = appended p\<close>
proof -
  have \<open>sublist (ascii ''<script>\<newline>      try {\<newline>        '' @ js (starter\<lparr>js := ascii ''throw null;''\<rparr>) @ ascii ''\<newline>      } catch (e) {\<newline>        console.error(e);\<newline>        const pre = document.createElement('pre');\<newline>        pre.style.color = 'red';\<newline>        pre.textContent = e.stack || e.toString();\<newline>        document.body.appendChild(pre);\<newline>      }\<newline>    </script>'') (srcDoc (starter\<lparr>js := ascii ''throw null;''\<rparr>))\<close>
    unfolding srcDoc_script_literal [of "starter\<lparr>js := ascii ''throw null;''\<rparr>"]
    by (rule sublist_appendI)
  moreover have \<open>ascii ''<script>\<newline>      try {\<newline>        '' @ js (starter\<lparr>js := ascii ''throw null;''\<rparr>) @ ascii ''\<newline>      } catch (e) {\<newline>        console.error(e);\<newline>        const pre = document.createElement('pre');\<newline>        pre.style.color = 'red';\<newline>        pre.textContent = e.stack || e.toString();\<newline>        document.body.appendChild(pre);\<newline>      }\<newline>    </script>'' = ascii ''<script>\<newline>      try {\<newline>        throw null;\<newline>      } catch (e) {\<newline>        console.error(e);\<newline>        const pre = document.createElement('pre');\<newline>        pre.style.color = 'red';\<newline>        pre.textContent = e.stack || e.toString();\<newline>        document.body.appendChild(pre);\<newline>      }\<newline>    </script>''\<close>
    by (simp add: ascii_def)
  ultimately show ?thesis
    by (simp add: run_script_def catch_handler_def)
qed

lemma srcDoc_env [simp]:
  "srcDoc (debounce_update f0 s) = srcDoc s"
  "srcDoc (surface_update f1 s) = srcDoc s"
  "srcDoc (mountRefresh_update f2 s) = srcDoc s"
  "srcDoc (clock_update f3 s) = srcDoc s"
  "srcDoc (activeEditor_update f4 s) = srcDoc s"
  "srcDoc (autoUpdate_update f5 s) = srcDoc s"
  "srcDoc (console_update f6 s) = srcDoc s"
  "srcDoc (localStorage_update f7 s) = srcDoc s"
  "srcDoc (lastSavedAt_update f8 s) = srcDoc s"
  by (simp_all add: srcDoc_def)

lemma srcDoc_inj:
  "srcDoc (s\<lparr>html := x\<rparr>) = srcDoc s \<longleftrightarrow> x = html s"
  "srcDoc (s\<lparr>css := x\<rparr>) = srcDoc s \<longleftrightarrow> x = css s"
  "srcDoc (s\<lparr>js := x\<rparr>) = srcDoc s \<longleftrightarrow> x = js s"
  by (simp_all add: srcDoc_def)

lemma commit_buffers [simp]:
  "html (commit old s) = html s" "css (commit old s) = css s" "js (commit old s) = js s"
  by (simp_all add: commit_def load_attr_def run_effect_def)

lemma commit_srcDoc [simp]: "srcDoc (commit old s) = srcDoc s"
  by (simp add: srcDoc_def)

section \<open>Templates\<close>

text \<open>
  C7. Applying a template that the table holds under the given name puts the three texts
  of the template into the three buffers, whatever they held before.
\<close>

theorem applyTemplate_replaces_all_buffers:
  "TEMPLATES name = Some t \<Longrightarrow>
     html (applyTemplate name s) = html t \<and>
     css (applyTemplate name s) = css t \<and>
     js (applyTemplate name s) = js t"
  by (simp add: applyTemplate_def)

theorem applyTemplate_replaces_all_buffers_witness:
  "TEMPLATES (ascii ''reactPlay'') = Some reactPlay \<and>
   html (applyTemplate (ascii ''reactPlay'') example_editor) = html reactPlay \<and>
   css (applyTemplate (ascii ''reactPlay'') example_editor) = css reactPlay \<and>
   js (applyTemplate (ascii ''reactPlay'') example_editor) = js reactPlay"
proof -
  have h: "TEMPLATES (ascii ''reactPlay'') = Some reactPlay"
    by (simp add: TEMPLATES_def ascii_def)
  show ?thesis
    using h applyTemplate_replaces_all_buffers [OF h, of example_editor] by simp
qed

section \<open>Saving\<close>

text \<open>
  C9. When the store cannot be reached, or the new contents would exceed its quota,
  \<open>saveToLocal\<close> returns the state it was given with one more console entry: the three
  buffers, the last-saved time and the store are as before.  The result is a state, so no
  exception leaves the function.
\<close>

theorem saveToLocal_storage_failure:
  "\<not> available (localStorage s) \<or>
   quota (localStorage s) <
     stored_size (put_item (storageKey s) (JSON_stringify (payload t1 s)) (items (localStorage s))) \<Longrightarrow>
   saveToLocal t1 t2 s =
     s\<lparr>console := console s @
          [Warn (ascii ''Could not save:'')
             (if available (localStorage s) then QuotaExceededError else SecurityError)]\<rparr> \<and>
   html (saveToLocal t1 t2 s) = html s \<and> css (saveToLocal t1 t2 s) = css s \<and>
   js (saveToLocal t1 t2 s) = js s \<and> lastSavedAt (saveToLocal t1 t2 s) = lastSavedAt s \<and>
   localStorage (saveToLocal t1 t2 s) = localStorage s \<and>
   surface (saveToLocal t1 t2 s) = surface s"
  by (auto simp: saveToLocal_def setItem_def)

theorem saveToLocal_storage_failure_witness:
  "\<not> available (localStorage example_editor) \<and>
   saveToLocal (ascii ''2026-01-01T00:00:00.000Z'') (ascii ''2026-01-01T00:00:00.001Z'')
       example_editor =
     example_editor\<lparr>console := [Warn (ascii ''Could not save:'') SecurityError]\<rparr> \<and>
   lastSavedAt (saveToLocal (ascii ''2026-01-01T00:00:00.000Z'')
       (ascii ''2026-01-01T00:00:00.001Z'') example_editor) = None"
proof -
  have h: "\<not> available (localStorage example_editor)"
    by (simp add: example_editor_def mount_def no_store_def)
  have c: "console example_editor = []" "lastSavedAt example_editor = None"
    by (simp_all add: example_editor_def mount_def)
  show ?thesis
    using h c saveToLocal_storage_failure [of example_editor
        "ascii ''2026-01-01T00:00:00.000Z''" "ascii ''2026-01-01T00:00:00.001Z''"]
    by simp
qed

section \<open>The preview in automatic mode\<close>

lemma pending_setActive: "pending t0 sf s \<Longrightarrow> pending t0 sf (setActiveEditor l s)"
  by (auto simp: pending_def setActiveEditor_def commit_def load_attr_def run_effect_def
      iframe_srcDoc_def srcDoc_def split: option.splits)

lemma setActive_clock [simp]: "clock (setActiveEditor l s) = clock s"
  by (simp add: setActiveEditor_def commit_def load_attr_def run_effect_def)

lemma onChange_clock [simp]: "clock (onChange v s) = clock s"
  by (simp add: onChange_def commit_def load_attr_def run_effect_def Let_def split: lang.splits)

lemma tick_clock [simp]: "clock (tick d s) = clock s + d"
  by (simp add: tick_def)

lemma commit_pending:
  assumes "pending t0 sf s" "autoUpdate s'" "iframeDoc s'" "mountRefresh s' = None" "surface s' = sf"
    "debounce s' = debounce s" "clock s' = clock s" "t0 \<le> clock s"
  shows "pending t0 sf (commit s s')"
  using assms
  by (auto simp: pending_def commit_def load_attr_def run_effect_def iframe_srcDoc_def
      split: option.splits)

lemma pending_onChange:
  assumes "pending t0 sf s" and "t0 \<le> clock s"
  shows "pending t0 sf (onChange v s)"
proof -
  define t where "t = (case v of None \<Rightarrow> [] | Some x \<Rightarrow> x)"
  define s' where "s' = (case activeEditor s of
      Html \<Rightarrow> s\<lparr>html := t\<rparr> | Css \<Rightarrow> s\<lparr>css := t\<rparr> | Js \<Rightarrow> s\<lparr>js := t\<rparr>)"
  have "pending t0 sf (commit s s')"
  proof (rule commit_pending [OF assms(1)])
    show "autoUpdate s'" "iframeDoc s'" "mountRefresh s' = None" "surface s' = sf"
      using assms(1) by (simp_all add: s'_def pending_def split: lang.splits)
    show "debounce s' = debounce s" "clock s' = clock s"
      by (simp_all add: s'_def split: lang.splits)
    show "t0 \<le> clock s" by (rule assms(2))
  qed
  then show ?thesis unfolding onChange_def Let_def t_def s'_def .
qed

lemma pending_tick:
  "pending t0 sf s \<Longrightarrow> clock s + g < t0 + 300 \<Longrightarrow> pending t0 sf (tick g s)"
  by (auto simp: pending_def tick_def fire_mount_def fire_debounce_def split: option.splits)

lemma pending_fire:
  "pending t0 sf s \<Longrightarrow> 300 \<le> w \<Longrightarrow> surface (tick w s) = sf @ [DocWrite (srcDoc s)]"
  by (auto simp: pending_def tick_def fire_mount_def fire_debounce_def write_doc_def
      split: option.splits)

lemma run_append: "run s (xs @ ys) = run (run s xs) ys"
  by (simp add: run_def)

lemma run_Cons: "run s (x # xs) = run (step s x) xs"
  by (simp add: run_def)

lemma run_Nil: "run s [] = s"
  by (simp add: run_def)

lemma pending_burst:
  "pending t0 sf s \<Longrightarrow> t0 \<le> clock s \<Longrightarrow> clock s + sum_list (map fst es) < t0 + 300 \<Longrightarrow>
     pending t0 sf (run s (burst es))"
proof (induction es arbitrary: s)
  case Nil
  then show ?case by (simp add: burst_def run_Nil)
next
  case (Cons e es)
  obtain g l v where e: "e = (g, l, v)" by (cases e)
  let ?s1 = "onChange v (setActiveEditor l (tick g s))"
  have p1: "pending t0 sf (tick g s)"
    using Cons.prems e by (intro pending_tick) auto
  have "pending t0 sf ?s1"
    using p1 Cons.prems(2) by (intro pending_onChange pending_setActive) auto
  moreover have "t0 \<le> clock ?s1" using Cons.prems(2) by simp
  moreover have "clock ?s1 + sum_list (map fst es) < t0 + 300"
    using Cons.prems(3) e by simp
  ultimately have "pending t0 sf (run ?s1 (burst es))"
    by (rule Cons.IH)
  moreover have "run s (burst (e # es)) = run ?s1 (burst es)"
    by (simp add: burst_def e run_Cons)
  ultimately show ?case by simp
qed


lemma onChange_changes_doc:
  "buffer (activeEditor s) s \<noteq> text_of v \<Longrightarrow> srcDoc (onChange v s) \<noteq> srcDoc s"
  unfolding onChange_def Let_def
  by (cases "activeEditor s") (auto simp: buffer_def text_of_def srcDoc_inj)

lemma setActiveEditor_eq: "setActiveEditor l s = s\<lparr>activeEditor := l\<rparr>"
  by (simp add: setActiveEditor_def commit_def load_attr_def run_effect_def iframe_srcDoc_def)

lemma first_edit_pending:
  assumes "autoUpdate s" "iframeDoc s" "mountRefresh s = None"
    and "buffer l s \<noteq> text_of v"
  shows "pending (clock s) (surface s) (onChange v (setActiveEditor l s))"
proof -
  define a where "a = s\<lparr>activeEditor := l\<rparr>"
  have "buffer (activeEditor a) a \<noteq> text_of v"
    using assms(4) by (cases l) (simp_all add: a_def buffer_def)
  then have d: "srcDoc (onChange v a) \<noteq> srcDoc a"
    by (rule onChange_changes_doc)
  have "pending (clock s) (surface s) (onChange v a)"
    using assms(1-3) d
    unfolding onChange_def Let_def a_def
    by (cases l)
       (auto simp: pending_def commit_def load_attr_def run_effect_def iframe_srcDoc_def
         split: option.splits)
  then show ?thesis by (simp add: setActiveEditor_eq a_def)
qed

lemma iframeDoc_commit [simp]: "iframeDoc (commit old s) = iframeDoc s"
  by (simp add: commit_def load_attr_def run_effect_def)

lemma iframeDoc_step: "iframeDoc (step s e) = iframeDoc s"
  by (cases e)
     (auto simp: onChange_def setActiveEditor_def toggleAuto_def refreshPreview_def write_doc_def
       saveToLocal_def applyTemplate_def clear_def tick_def fire_mount_def fire_debounce_def
       Let_def split: lang.splits sum.splits option.splits)

lemma iframeDoc_run: "iframeDoc (run s es) = iframeDoc s"
  unfolding run_def by (induction es arbitrary: s) (simp_all add: iframeDoc_step)

lemma iframeDoc_mount: "iframeDoc (run (mount b shared key st now) es)"
  by (simp add: iframeDoc_run mount_def)

lemma srcDoc_bundle_of: "srcDoc b = srcDoc (bundle_of b)"
  by (simp add: srcDoc_def bundle_of_def)

lemma bundle_of_put_text:
  "bundle_of (put_text l t b) = put_text l t (bundle_of b)"
  by (cases l) (simp_all add: put_text_def bundle_of_def)

lemma bundle_of_edited: "bundle_of (edited es b) = edited es (bundle_of b)"
  unfolding edited_def
  by (induction es arbitrary: b) (simp_all add: bundle_of_put_text split: prod.splits)

lemma bundle_of_commit [simp]: "bundle_of (commit old s) = bundle_of s"
  by (simp add: bundle_of_def)

lemma bundle_of_onChange:
  "bundle_of (onChange v s) = put_text (activeEditor s) (text_of v) (bundle_of s)"
  by (cases "activeEditor s")
     (simp_all add: onChange_def Let_def put_text_def text_of_def bundle_of_def)

lemma bundle_of_setActiveEditor: "bundle_of (setActiveEditor l s) = bundle_of s"
  by (simp add: setActiveEditor_eq bundle_of_def)

lemma activeEditor_setActiveEditor: "activeEditor (setActiveEditor l s) = l"
  by (simp add: setActiveEditor_eq)

lemma bundle_of_tick: "bundle_of (tick g s) = bundle_of s"
  by (simp add: bundle_of_def tick_def fire_mount_def fire_debounce_def write_doc_def
      split: option.splits)

lemma edited_Cons: "edited ((l, v) # es) b = edited es (put_text l (text_of v) b)"
  by (simp add: edited_def)

lemma bundle_of_burst:
  "bundle_of (run s (burst es)) = edited (map snd es) (bundle_of s)"
proof (induction es arbitrary: s)
  case Nil
  then show ?case by (simp add: burst_def run_Nil edited_def)
next
  case (Cons e es)
  obtain g l v where e: "e = (g, l, v)" by (cases e)
  let ?s1 = "onChange v (setActiveEditor l (tick g s))"
  have "run s (burst (e # es)) = run ?s1 (burst es)"
    by (simp add: burst_def e run_Cons)
  moreover have "bundle_of ?s1 = put_text l (text_of v) (bundle_of s)"
    by (simp add: bundle_of_onChange activeEditor_setActiveEditor bundle_of_setActiveEditor
        bundle_of_tick)
  ultimately show ?case
    using Cons.IH [of ?s1] by (simp add: e edited_Cons)
qed

lemma srcDoc_burst:
  "srcDoc (run s (SetActiveEditor l # Change v # burst es)) =
     srcDoc (edited ((l, v) # map snd es) s)"
proof -
  let ?s1 = "onChange v (setActiveEditor l s)"
  have "bundle_of (run s (SetActiveEditor l # Change v # burst es)) =
      edited (map snd es) (bundle_of ?s1)"
    by (simp add: run_Cons bundle_of_burst)
  also have "bundle_of ?s1 = put_text l (text_of v) (bundle_of s)"
    by (simp add: bundle_of_onChange activeEditor_setActiveEditor bundle_of_setActiveEditor)
  finally have "bundle_of (run s (SetActiveEditor l # Change v # burst es)) =
      bundle_of (edited ((l, v) # map snd es) s)"
    by (simp add: bundle_of_edited edited_Cons bundle_of_put_text)
  then show ?thesis
    using srcDoc_bundle_of [of "run s (SetActiveEditor l # Change v # burst es)"]
      srcDoc_bundle_of [of "edited ((l, v) # map snd es) s"]
    by simp
qed

lemma edited_last:
  "buffer l (edited (es @ [(l, v)]) b) = text_of v"
  by (cases l) (simp_all add: edited_def put_text_def buffer_def)

text \<open>
  C5, amended.  The component is in any state it can reach after its first render, in
  automatic mode, with no timeout of the first render pending.  A first edit that changes
  its buffer, followed by any number of edits that all come less than 300 ms after the
  first, renders nothing while the edits come in; once 300 ms or more have passed after the
  last edit, exactly one document has been written to the preview.  It is the document
  composed from the buffers that the edits leave (each buffer holds the text of the latest
  edit made to it, the buffer of the last edit the text of that edit); the timeout of every
  earlier edit has been cleared.
\<close>

theorem debounce_coalesces_edits:
  assumes "s = run (mount b0 shared key st now) pre"
    and "autoUpdate s" and "mountRefresh s = None"
    and "buffer l s \<noteq> text_of v"
    and "sum_list (map fst es) < 300" and "300 \<le> w"
  shows "surface (run s (SetActiveEditor l # Change v # burst es)) = surface s \<and>
         surface (run s (SetActiveEditor l # Change v # burst es @ [Tick w])) =
           surface s @ [DocWrite (srcDoc (edited ((l, v) # map snd es) s))] \<and>
         buffer (fst (last ((l, v) # map snd es))) (edited ((l, v) # map snd es) s) =
           text_of (snd (last ((l, v) # map snd es)))"
proof -
  let ?s1 = "onChange v (setActiveEditor l s)"
  have i: "iframeDoc s" unfolding assms(1) by (rule iframeDoc_mount)
  have p1: "pending (clock s) (surface s) ?s1"
    using assms(2) i assms(3,4) by (rule first_edit_pending)
  have "pending (clock s) (surface s) (run ?s1 (burst es))"
    using p1 assms(5) by (intro pending_burst) auto
  moreover have r: "run s (SetActiveEditor l # Change v # burst es) = run ?s1 (burst es)"
    by (simp add: run_Cons)
  ultimately have p: "pending (clock s) (surface s) (run s (SetActiveEditor l # Change v # burst es))"
    by simp
  have t: "run s (SetActiveEditor l # Change v # burst es @ [Tick w]) =
        tick w (run s (SetActiveEditor l # Change v # burst es))"
    using run_append [of s "SetActiveEditor l # Change v # burst es" "[Tick w]"]
    by (simp add: run_Cons run_Nil)
  define E where "E = (l, v) # map snd es"
  have "E \<noteq> []" by (simp add: E_def)
  then have "E = butlast E @ [(fst (last E), snd (last E))]" by simp
  then have "buffer (fst (last E)) (edited E s) = text_of (snd (last E))"
    using edited_last [of "fst (last E)" "butlast E" "snd (last E)" s] by simp
  then show ?thesis
    unfolding E_def
    using p pending_fire [OF p assms(6)] t by (simp add: pending_def srcDoc_burst)
qed

lemma example_burst:
  "srcDoc (edited ((Html, Some (ascii ''<h1>a</h1>'')) #
      map snd [(120, Html, Some (ascii ''<h1>ab</h1>'')), (150::nat, Css, Some (ascii ''h1{color:red}''))])
      example_editor) =
   srcDoc \<lparr>html = ascii ''<h1>ab</h1>'', css = ascii ''h1{color:red}'', js = js starter\<rparr>"
  by (simp add: edited_def put_text_def text_of_def example_editor_def mount_def srcDoc_def)

theorem debounce_coalesces_edits_witness:
  "example_editor = run (mount starter False (ascii ''online-code-editor-v1'') no_store 0) [] \<and>
   autoUpdate example_editor \<and> mountRefresh example_editor = None \<and>
   buffer Html example_editor \<noteq> text_of (Some (ascii ''<h1>a</h1>'')) \<and>
   sum_list (map fst [(120, Html, Some (ascii ''<h1>ab</h1>'')),
                      (150::nat, Css, Some (ascii ''h1{color:red}''))]) < (300::nat) \<and>
   surface example_editor = [] \<and>
   surface (run example_editor
      (SetActiveEditor Html # Change (Some (ascii ''<h1>a</h1>'')) #
       burst [(120, Html, Some (ascii ''<h1>ab</h1>'')), (150, Css, Some (ascii ''h1{color:red}''))]
       @ [Tick 300])) =
     [DocWrite (srcDoc \<lparr>html = ascii ''<h1>ab</h1>'', css = ascii ''h1{color:red}'',
                         js = js starter\<rparr>)]"
proof -
  have h0: "example_editor = run (mount starter False (ascii ''online-code-editor-v1'') no_store 0) []"
    by (simp add: example_editor_def run_Nil)
  have h1: "autoUpdate example_editor" and h3: "mountRefresh example_editor = None"
    and s0: "surface example_editor = []"
    by (simp_all add: example_editor_def mount_def)
  have h4: "buffer Html example_editor \<noteq> text_of (Some (ascii ''<h1>a</h1>''))"
    by (simp add: example_editor_def mount_def buffer_def text_of_def starter_def ascii_def)
  have h5: "sum_list (map fst [(120, Html, Some (ascii ''<h1>ab</h1>'')),
                      (150::nat, Css, Some (ascii ''h1{color:red}''))]) < (300::nat)"
    by simp
  have h6: "(300::nat) \<le> 300" by simp
  show ?thesis
    using h0 h1 h3 h4 h5 s0 debounce_coalesces_edits [OF h0 h1 h3 h4 h5 h6]
    unfolding example_burst by simp
qed

text \<open>
  C5, as the specification words it, fails when the page was opened from a share link.
  The effect of the first render sets a timeout of 50 ms that writes the document of the
  first render.  One edit made before that timeout has run is followed by two renders: the
  document of the first render, then the edited one.
\<close>

theorem stale_render_after_share_link:
  "autoUpdate shared_editor \<and> surface shared_editor = [] \<and>
   surface (run shared_editor [Change (Some (ascii ''<p>x</p>'')), Tick 300]) =
     [DocWrite (srcDoc starter),
      DocWrite (srcDoc \<lparr>html = ascii ''<p>x</p>'', css = css starter, js = js starter\<rparr>)]"
proof -
  define m where "m = onChange (Some (ascii ''<p>x</p>'')) shared_editor"
  have "ascii ''<p>x</p>'' \<noteq> html shared_editor"
    by (simp add: shared_editor_def mount_def starter_def ascii_def)
  then have d: "srcDoc (shared_editor\<lparr>html := ascii ''<p>x</p>''\<rparr>) \<noteq> srcDoc shared_editor"
    by (simp add: srcDoc_inj)
  have e: "srcDoc (shared_editor\<lparr>html := ascii ''<p>x</p>''\<rparr>) =
      srcDoc \<lparr>html = ascii ''<p>x</p>'', css = css starter, js = js starter\<rparr>"
    by (simp add: srcDoc_def shared_editor_def mount_def)
  have a: "activeEditor shared_editor = Html" "autoUpdate shared_editor"
    "surface shared_editor = []" "clock shared_editor = 0"
    "mountRefresh shared_editor = Some (50, srcDoc starter)" "iframeDoc shared_editor"
    by (simp_all add: shared_editor_def mount_def)
  have m: "m = shared_editor\<lparr>html := ascii ''<p>x</p>'',
      debounce := Some (300, srcDoc \<lparr>html = ascii ''<p>x</p>'', css = css starter, js = js starter\<rparr>)\<rparr>"
    unfolding m_def onChange_def Let_def
    using d by (simp add: a commit_def load_attr_def run_effect_def iframe_srcDoc_def e)
  have "surface (tick 300 m) =
      [DocWrite (srcDoc starter),
       DocWrite (srcDoc \<lparr>html = ascii ''<p>x</p>'', css = css starter, js = js starter\<rparr>)]"
    unfolding m by (simp add: tick_def fire_mount_def fire_debounce_def write_doc_def a)
  then show ?thesis
    using a(2,3) by (simp add: run_def m_def)
qed

section \<open>The preview in manual mode\<close>

lemma manual_edit_loads:
  assumes "\<not> autoUpdate s" and "buffer (activeEditor s) s \<noteq> text_of v"
  shows "surface (onChange v s) = surface s @ [SrcDocLoad (srcDoc (onChange v s))]"
proof -
  have d: "srcDoc (onChange v s) \<noteq> srcDoc s"
    using assms(2) by (rule onChange_changes_doc)
  then show ?thesis
    using assms(1)
    unfolding onChange_def Let_def
    by (cases "activeEditor s")
       (auto simp: commit_def load_attr_def run_effect_def iframe_srcDoc_def)
qed

text \<open>
  C2. With automatic update switched off and no use of Refresh, one edit of the markup
  gives the preview a new document: the \<open>srcDoc\<close> attribute of the frame follows the
  composed document while \<open>autoUpdate\<close> is off, so the frame is loaded again on the edit.
  (Switching off has itself loaded the document of that moment.)
\<close>

theorem manual_mode_edit_reloads_preview:
  "\<not> autoUpdate (run example_editor [ToggleAuto]) \<and>
   surface (run example_editor [ToggleAuto]) = [SrcDocLoad (srcDoc starter)] \<and>
   surface (run example_editor [ToggleAuto, Change (Some (ascii ''<p>edited</p>''))]) =
     [SrcDocLoad (srcDoc starter),
      SrcDocLoad (srcDoc (starter\<lparr>html := ascii ''<p>edited</p>''\<rparr>))]"
proof -
  define m where "m = run example_editor [ToggleAuto]"
  have m: "m = example_editor\<lparr>autoUpdate := False, surface := [SrcDocLoad (srcDoc starter)],
      debounce := None\<rparr>"
    by (simp add: m_def run_def toggleAuto_def commit_def load_attr_def run_effect_def
        iframe_srcDoc_def example_editor_def mount_def srcDoc_def)
  have a: "\<not> autoUpdate m" by (simp add: m)
  have b: "buffer (activeEditor m) m \<noteq> text_of (Some (ascii ''<p>edited</p>''))"
    by (simp add: m example_editor_def mount_def buffer_def text_of_def starter_def ascii_def)
  have c: "srcDoc (onChange (Some (ascii ''<p>edited</p>'')) m) =
        srcDoc (starter\<lparr>html := ascii ''<p>edited</p>''\<rparr>)"
    by (simp add: m onChange_def example_editor_def mount_def srcDoc_def)
  have r: "run example_editor [ToggleAuto, Change (Some (ascii ''<p>edited</p>''))] =
      onChange (Some (ascii ''<p>edited</p>'')) m"
    by (simp add: m_def run_def)
  have s: "surface m = [SrcDocLoad (srcDoc starter)]" by (simp add: m)
  show ?thesis
    unfolding r m_def [symmetric]
    using manual_edit_loads [OF a b] a s c by simp
qed

section \<open>Restoring on load\<close>

lemma decode_token_A: "decodeState token_A = JObj [(ascii ''html'', JStr (ascii ''A''))]"
  by code_simp

lemma decode_token_ABC:
  "decodeState token_ABC =
     JObj [(ascii ''html'', JStr (ascii ''A'')), (ascii ''css'', JStr (ascii ''B'')),
           (ascii ''js'', JStr (ascii ''C''))]"
  by code_simp

lemma parse_snapshot_XYZ:
  "JSON_parse snapshot_XYZ =
     Inr (JObj [(ascii ''html'', JStr (ascii ''X'')), (ascii ''css'', JStr (ascii ''Y'')),
                (ascii ''js'', JStr (ascii ''Z'')),
                (ascii ''updatedAt'', JStr (ascii ''2026-01-01T00:00:00.000Z''))])"
  by code_simp

lemma parse_snapshot_css: "JSON_parse snapshot_css = Inr (JObj [(ascii ''css'', JStr (ascii ''Y''))])"
  by code_simp

lemma parse_snapshot_cut: "JSON_parse snapshot_cut = Inl SyntaxError"
  by code_simp

lemma examples_nonempty:
  "token_A \<noteq> []" "token_ABC \<noteq> []" "snapshot_XYZ \<noteq> []" "snapshot_css \<noteq> []"
  "snapshot_cut \<noteq> []"
  by (simp_all add: token_A_def token_ABC_def snapshot_XYZ_def snapshot_css_def
      snapshot_cut_def ascii_def)

lemma fromUrl_examples:
  "fromUrl None = JNull"
  "fromUrl (Some token_A) = JObj [(ascii ''html'', JStr (ascii ''A''))]"
  "fromUrl (Some token_ABC) =
     JObj [(ascii ''html'', JStr (ascii ''A'')), (ascii ''css'', JStr (ascii ''B'')),
           (ascii ''js'', JStr (ascii ''C''))]"
  by (simp_all add: fromUrl_def decode_token_A decode_token_ABC examples_nonempty)

lemma fromStorage_examples:
  "fromStorage no_store k = JNull"
  "fromStorage (store_with k snapshot_XYZ) k =
     JObj [(ascii ''html'', JStr (ascii ''X'')), (ascii ''css'', JStr (ascii ''Y'')),
           (ascii ''js'', JStr (ascii ''Z'')),
           (ascii ''updatedAt'', JStr (ascii ''2026-01-01T00:00:00.000Z''))]"
  "fromStorage (store_with k snapshot_css) k = JObj [(ascii ''css'', JStr (ascii ''Y''))]"
  "fromStorage (store_with k snapshot_cut) k = JNull"
  by (simp_all add: fromStorage_def getItem_def store_with_def no_store_def
      parse_snapshot_XYZ parse_snapshot_css parse_snapshot_cut examples_nonempty)

lemmas restore_eval =
  restore_def Let_def initial_field_def opt_chain_def get_prop_def nullish_def
  fromUrl_examples fromStorage_examples ascii_def spec_restore_whole_def fields_of_def
  buffers_of_def as_bundle_def no_field_def unusable_def


lemma get_prop_JNull [simp]: "get_prop JNull f = None"
  by (simp add: get_prop_def)

lemma opt_chain_eq: "opt_chain v f = get_prop v f"
  by (simp add: opt_chain_def)

lemma initial_field_first_usable:
  "initial_field f u l ini d =
     Some (first_usable [get_prop u f, get_prop l f, map_of ini f] (JStr d))"
  by (auto simp: initial_field_def nullish_def opt_chain_eq get_prop_def
      split: option.splits json.splits)





text \<open>
  C10. Each buffer is resolved on its own: its initial value is the first of the token's
  field, the snapshot's field and the field of the \<open>initial\<close> prop that is neither
  \<open>undefined\<close> nor \<open>null\<close>, else the default text.  So the buffers can come from
  different sources: with a token that holds only \<open>html\<close>, a snapshot that holds only
  \<open>css\<close> and an \<open>initial\<close> prop that holds only \<open>js\<close>, each of the three gives one
  buffer.
\<close>

theorem restore_field_by_field:
  "restore c st k ini =
     \<lparr>html0 = Some (first_usable
        [get_prop (fromUrl c) (ascii ''html''), get_prop (fromStorage st k) (ascii ''html''),
         map_of ini (ascii ''html'')] (JStr (html DEFAULT_TEMPLATE))),
      css0 = Some (first_usable
        [get_prop (fromUrl c) (ascii ''css''), get_prop (fromStorage st k) (ascii ''css''),
         map_of ini (ascii ''css'')] (JStr (css DEFAULT_TEMPLATE))),
      js0 = Some (first_usable
        [get_prop (fromUrl c) (ascii ''js''), get_prop (fromStorage st k) (ascii ''js''),
         map_of ini (ascii ''js'')] (JStr (js DEFAULT_TEMPLATE)))\<rparr> \<and>
   restore (Some token_A) (store_with (ascii ''k'') snapshot_css) (ascii ''k'')
       [(ascii ''js'', JStr (ascii ''J''))] =
     \<lparr>html0 = Some (JStr (ascii ''A'')), css0 = Some (JStr (ascii ''Y'')),
      js0 = Some (JStr (ascii ''J''))\<rparr>"
proof -
  have "restore (Some token_A) (store_with (ascii ''k'') snapshot_css) (ascii ''k'')
       [(ascii ''js'', JStr (ascii ''J''))] =
     \<lparr>html0 = Some (JStr (ascii ''A'')), css0 = Some (JStr (ascii ''Y'')),
      js0 = Some (JStr (ascii ''J''))\<rparr>"
    by (simp add: restore_eval)
  then show ?thesis
    by (simp add: restore_def Let_def initial_field_first_usable)
qed





section \<open>The fuel of the parser\<close>

text \<open>
  The fuel never decides: more fuel does not change a result, every success consumes
  input, and a parse that succeeds with some fuel succeeds with as much fuel as it consumes
  characters.  So \<open>JSON_parse\<close> succeeds exactly when the descent succeeds with some
  fuel.
\<close>

lemma skip_ws_length: "length (skip_ws t) \<le> length t"
  by (simp add: skip_ws_def length_dropWhile_le)

lemma consume_SomeD: "consume c x = Some (s, r) \<Longrightarrow> \<exists>s'. x = Some (s', r) \<and> s = c # s'"
  by (cases x) (auto simp: consume_def)

lemma parse_chars_length: "parse_chars t = Some (s, r) \<Longrightarrow> length r < length t"
proof (induction t arbitrary: s rule: parse_chars.induct)
  case 1
  then show ?case by simp
next
  case (2 c cs)
  then show ?case
    by (fastforce split: if_splits list.splits option.splits dest!: consume_SomeD)
qed

lemma digits_of_length: "digits_of t = (ds, r) \<Longrightarrow> length r \<le> length t"
  by (auto simp: digits_of_def length_dropWhile_le)

lemma parse_number_length: "parse_number t = Some (s, r) \<Longrightarrow> length r < length t"
  by (auto simp: parse_number_def parse_int_part_def parse_frac_part_def parse_exp_part_def
      Let_def split: list.splits if_splits option.splits prod.splits
      dest!: digits_of_length)

lemma parse_literal_length: "parse_literal t = Some (v, r) \<Longrightarrow> length r < length t"
  by (auto simp: parse_literal_def ascii_def split: if_splits) (cases t; simp)+


lemma parse_mono_step:
  "(\<forall>t x. parse_value n t = Some x \<longrightarrow> parse_value (Suc n) t = Some x) \<and>
   (\<forall>t acc x. parse_elements n acc t = Some x \<longrightarrow> parse_elements (Suc n) acc t = Some x) \<and>
   (\<forall>t acc x. parse_members n acc t = Some x \<longrightarrow> parse_members (Suc n) acc t = Some x)"
proof (induction n)
  case 0
  then show ?case by simp
next
  case (Suc n)
  then have v: "\<And>t x. parse_value n t = Some x \<Longrightarrow> parse_value (Suc n) t = Some x"
    and e: "\<And>t acc x. parse_elements n acc t = Some x \<Longrightarrow> parse_elements (Suc n) acc t = Some x"
    and m: "\<And>t acc x. parse_members n acc t = Some x \<Longrightarrow> parse_members (Suc n) acc t = Some x"
    by blast+
  have 1: "parse_value (Suc (Suc n)) t = Some x" if "parse_value (Suc n) t = Some x" for t x
    using that
    apply (subst parse_value.simps)
    apply (subst (asm) parse_value.simps)
    apply (auto split: list.splits if_splits simp del: parse_value.simps parse_elements.simps
        parse_members.simps intro: e m)
    done
  have 2: "parse_elements (Suc (Suc n)) acc t = Some x" if "parse_elements (Suc n) acc t = Some x"
    for t acc x
    using that
    apply (subst parse_elements.simps)
    apply (subst (asm) parse_elements.simps)
    apply (auto split: list.splits if_splits option.splits
        simp del: parse_value.simps parse_elements.simps parse_members.simps
        simp: v dest: e)
    done
  have 3: "parse_members (Suc (Suc n)) acc t = Some x" if "parse_members (Suc n) acc t = Some x"
    for t acc x
    using that
    apply (subst parse_members.simps)
    apply (subst (asm) parse_members.simps)
    apply (auto split: list.splits if_splits option.splits
        simp del: parse_value.simps parse_elements.simps parse_members.simps
        simp: v dest: m)
    done
  show ?case using 1 2 3 by blast
qed


lemma parse_value_Suc: "parse_value n t = Some x \<Longrightarrow> parse_value (Suc n) t = Some x"
  and parse_elements_Suc: "parse_elements n acc t = Some x \<Longrightarrow> parse_elements (Suc n) acc t = Some x"
  and parse_members_Suc: "parse_members n acc' t = Some x \<Longrightarrow> parse_members (Suc n) acc' t = Some x"
  using parse_mono_step [of n] by blast+

lemma parse_value_mono: "n \<le> m \<Longrightarrow> parse_value n t = Some x \<Longrightarrow> parse_value m t = Some x"
  by (induction m) (auto simp: le_Suc_eq simp del: parse_value.simps dest: parse_value_Suc)

lemma parse_elements_mono:
  "n \<le> m \<Longrightarrow> parse_elements n acc t = Some x \<Longrightarrow> parse_elements m acc t = Some x"
  by (induction m) (auto simp: le_Suc_eq simp del: parse_elements.simps dest: parse_elements_Suc)

lemma parse_members_mono:
  "n \<le> m \<Longrightarrow> parse_members n acc t = Some x \<Longrightarrow> parse_members m acc t = Some x"
  by (induction m) (auto simp: le_Suc_eq simp del: parse_members.simps dest: parse_members_Suc)

lemma parse_consumes_all:
  "(\<forall>t v r. parse_value n t = Some (v, r) \<longrightarrow> length r < length t) \<and>
   (\<forall>t acc v r. parse_elements n acc t = Some (v, r) \<longrightarrow> length r < length t) \<and>
   (\<forall>t acc v r. parse_members n acc t = Some (v, r) \<longrightarrow> length r < length t)"
proof (induction n)
  case 0
  then show ?case by simp
next
  case (Suc n)
  then have v: "\<And>t v r. parse_value n t = Some (v, r) \<Longrightarrow> length r < length t"
    and e: "\<And>t acc v r. parse_elements n acc t = Some (v, r) \<Longrightarrow> length r < length t"
    and m: "\<And>t acc v r. parse_members n acc t = Some (v, r) \<Longrightarrow> length r < length t"
    by blast+
  have 1: "length r < length t" if h: "parse_value (Suc n) t = Some (v, r)" for t v r
  proof -
    obtain c cs where s: "skip_ws t = c # cs"
      using h by (cases "skip_ws t") simp_all
    have l: "Suc (length cs) \<le> length t"
      using skip_ws_length [of t] by (simp add: s)
    have "length r \<le> length cs"
      using h s skip_ws_length [of cs]
      by (auto split: list.splits if_splits dest!: e m parse_chars_length parse_number_length
          parse_literal_length)
    then show ?thesis using l by simp
  qed
  have 2: "length r < length t" if h: "parse_elements (Suc n) acc t = Some (v, r)" for t acc v r
  proof -
    obtain v1 r1 where a: "parse_value n t = Some (v1, r1)"
      using h by (cases "parse_value n t") auto
    obtain d ds where s: "skip_ws r1 = d # ds"
      using h a by (cases "skip_ws r1") simp_all
    have l: "Suc (length ds) \<le> length r1" "length r1 < length t"
      using skip_ws_length [of r1] v [OF a] by (simp_all add: s)
    have "length r \<le> length ds"
      using h a s by (auto split: if_splits dest!: e)
    then show ?thesis using l by simp
  qed
  have 3: "length r < length t" if h: "parse_members (Suc n) acc t = Some (v, r)" for t acc v r
  proof -
    obtain q qs where s0: "skip_ws t = q # qs" and q: "q = 34"
      using h by (cases "skip_ws t") (auto split: if_splits)
    obtain k r0 where k: "parse_chars qs = Some (k, r0)"
      using h s0 q by (cases "parse_chars qs") auto
    obtain c cs where s1: "skip_ws r0 = c # cs" and c: "c = 58"
      using h s0 q k by (cases "skip_ws r0") (auto split: if_splits)
    obtain v1 r1 where a: "parse_value n cs = Some (v1, r1)"
      using h s0 q k s1 c by (cases "parse_value n cs") auto
    obtain d ds where s2: "skip_ws r1 = d # ds"
      using h s0 q k s1 c a by (cases "skip_ws r1") simp_all
    have l: "Suc (length qs) \<le> length t" "length r0 < length qs" "Suc (length cs) \<le> length r0"
      "length r1 < length cs" "Suc (length ds) \<le> length r1"
      using skip_ws_length [of t] skip_ws_length [of r0] skip_ws_length [of r1]
        parse_chars_length [OF k] v [OF a]
      by (simp_all add: s0 s1 s2)
    have "length r \<le> length ds"
      using h s0 q k s1 c a s2 by (auto split: if_splits dest!: m)
    then show ?thesis using l by simp
  qed
  show ?case using 1 2 3 by blast
qed


lemma parse_value_consumes: "parse_value n t = Some (v, r) \<Longrightarrow> length r < length t"
  and parse_elements_consumes: "parse_elements n acc t = Some (v, r) \<Longrightarrow> length r < length t"
  and parse_members_consumes: "parse_members n acc' t = Some (v, r) \<Longrightarrow> length r < length t"
  using parse_consumes_all [of n] by blast+

lemma parse_fuel_needed:
  "(\<forall>t v r. parse_value n t = Some (v, r) \<longrightarrow>
      parse_value (length t - length r) t = Some (v, r)) \<and>
   (\<forall>t acc v r. parse_elements n acc t = Some (v, r) \<longrightarrow>
      parse_elements (length t - length r) acc t = Some (v, r)) \<and>
   (\<forall>t acc v r. parse_members n acc t = Some (v, r) \<longrightarrow>
      parse_members (length t - length r) acc t = Some (v, r))"
proof (induction n)
  case 0
  then show ?case by simp
next
  case (Suc n)
  then have v: "\<And>t v r. parse_value n t = Some (v, r) \<Longrightarrow>
      parse_value (length t - length r) t = Some (v, r)"
    and e: "\<And>t acc v r. parse_elements n acc t = Some (v, r) \<Longrightarrow>
      parse_elements (length t - length r) acc t = Some (v, r)"
    and m: "\<And>t acc v r. parse_members n acc t = Some (v, r) \<Longrightarrow>
      parse_members (length t - length r) acc t = Some (v, r)"
    by blast+
  have 1: "parse_value (length t - length r) t = Some (v, r)"
    if h: "parse_value (Suc n) t = Some (v, r)" for t v r
  proof -
    obtain c cs where s: "skip_ws t = c # cs"
      using h by (cases "skip_ws t") simp_all
    have l: "Suc (length cs) \<le> length t"
      using skip_ws_length [of t] by (simp add: s)
    define k where "k = length t - length r - 1"
    have f: "length t - length r = Suc k"
      using parse_value_consumes [OF h] by (simp add: k_def)
    have km: "parse_members k [] cs = Some (v, r)" if a: "parse_members n [] cs = Some (v, r)"
    proof -
      have "length cs - length r \<le> k"
        using l parse_members_consumes [OF a] by (simp add: k_def)
      then show ?thesis using m [OF a] by (rule parse_members_mono)
    qed
    have ke: "parse_elements k [] cs = Some (v, r)" if a: "parse_elements n [] cs = Some (v, r)"
    proof -
      have "length cs - length r \<le> k"
        using l parse_elements_consumes [OF a] by (simp add: k_def)
      then show ?thesis using e [OF a] by (rule parse_elements_mono)
    qed
    show ?thesis
      unfolding f
      using h
      apply (subst parse_value.simps)
      apply (subst (asm) parse_value.simps)
      apply (auto simp: s split: list.splits if_splits
          simp del: parse_value.simps parse_elements.simps parse_members.simps intro: km ke)
      done
  qed
  have 2: "parse_elements (length t - length r) acc t = Some (v, r)"
    if h: "parse_elements (Suc n) acc t = Some (v, r)" for t acc v r
  proof -
    obtain v1 r1 where a: "parse_value n t = Some (v1, r1)"
      using h by (cases "parse_value n t") auto
    obtain d ds where s: "skip_ws r1 = d # ds"
      using h a by (cases "skip_ws r1") simp_all
    have l: "Suc (length ds) \<le> length r1" "length r1 < length t"
      using skip_ws_length [of r1] parse_value_consumes [OF a] by (simp_all add: s)
    define k where "k = length t - length r - 1"
    have f: "length t - length r = Suc k"
      using parse_elements_consumes [OF h] by (simp add: k_def)
    have d: "d = 44 \<and> parse_elements n (acc @ [v1]) ds = Some (v, r) \<or>
        d = 93 \<and> (v, r) = (JArr (acc @ [v1]), ds)"
      using h a s by (auto split: if_splits)
    then have lr: "length r \<le> length ds"
      using parse_elements_consumes [of n "acc @ [v1]" ds v r] by auto
    have "length t - length r1 \<le> k" using l lr by (simp add: k_def)
    then have kv: "parse_value k t = Some (v1, r1)"
      using v [OF a] by (rule parse_value_mono)
    have ke: "parse_elements k (acc @ [v1]) ds = Some (v, r)"
      if b: "parse_elements n (acc @ [v1]) ds = Some (v, r)"
    proof -
      have "length ds - length r \<le> k" using l by (simp add: k_def)
      then show ?thesis using e [OF b] by (rule parse_elements_mono)
    qed
    show ?thesis
      unfolding f
      apply (subst parse_elements.simps)
      using d
      apply (auto simp: kv s simp del: parse_value.simps parse_elements.simps parse_members.simps
          intro: ke)
      done
  qed
  have 3: "parse_members (length t - length r) acc t = Some (v, r)"
    if h: "parse_members (Suc n) acc t = Some (v, r)" for t acc v r
  proof -
    obtain q qs where s0: "skip_ws t = q # qs" and q: "q = 34"
      using h by (cases "skip_ws t") (auto split: if_splits)
    obtain key r0 where key: "parse_chars qs = Some (key, r0)"
      using h s0 q by (cases "parse_chars qs") auto
    obtain c cs where s1: "skip_ws r0 = c # cs" and c: "c = 58"
      using h s0 q key by (cases "skip_ws r0") (auto split: if_splits)
    obtain v1 r1 where a: "parse_value n cs = Some (v1, r1)"
      using h s0 q key s1 c by (cases "parse_value n cs") auto
    obtain d ds where s2: "skip_ws r1 = d # ds"
      using h s0 q key s1 c a by (cases "skip_ws r1") simp_all
    have l: "Suc (length qs) \<le> length t" "length r0 < length qs" "Suc (length cs) \<le> length r0"
      "length r1 < length cs" "Suc (length ds) \<le> length r1"
      using skip_ws_length [of t] skip_ws_length [of r0] skip_ws_length [of r1]
        parse_chars_length [OF key] parse_value_consumes [OF a]
      by (simp_all add: s0 s1 s2)
    define k where "k = length t - length r - 1"
    have f: "length t - length r = Suc k"
      using parse_members_consumes [OF h] by (simp add: k_def)
    have d: "d = 44 \<and> parse_members n (obj_set key v1 acc) ds = Some (v, r) \<or>
        d = 125 \<and> (v, r) = (JObj (obj_set key v1 acc), ds)"
      using h s0 q key s1 c a s2 by (auto split: if_splits)
    then have lr: "length r \<le> length ds"
      using parse_members_consumes [of n "obj_set key v1 acc" ds v r] by auto
    have "length cs - length r1 \<le> k" using l lr by (simp add: k_def)
    then have kv: "parse_value k cs = Some (v1, r1)"
      using v [OF a] by (rule parse_value_mono)
    have km: "parse_members k (obj_set key v1 acc) ds = Some (v, r)"
      if b: "parse_members n (obj_set key v1 acc) ds = Some (v, r)"
    proof -
      have "length ds - length r \<le> k" using l by (simp add: k_def)
      then show ?thesis using m [OF b] by (rule parse_members_mono)
    qed
    show ?thesis
      unfolding f
      apply (subst parse_members.simps)
      using d
      apply (auto simp: kv s0 q key s1 c s2
          simp del: parse_value.simps parse_elements.simps parse_members.simps intro: km)
      done
  qed
  show ?case using 1 2 3 by blast
qed

lemma parse_fuel_enough:
  assumes "parse_value n t = Some x"
  shows "parse_value (Suc (length t)) t = Some x"
proof -
  obtain v r where x: "x = (v, r)" by (cases x)
  have "parse_value (length t - length r) t = Some (v, r)"
    using parse_fuel_needed [of n] assms x by blast
  moreover have "length t - length r \<le> Suc (length t)" by simp
  ultimately show ?thesis unfolding x by (rule parse_value_mono [rotated])
qed


lemma JSON_parse_any_fuel:
  "JSON_parse text = Inr v \<longleftrightarrow> (\<exists>n r. parse_value n text = Some (v, r) \<and> skip_ws r = [])"
proof
  assume a: "JSON_parse text = Inr v"
  define x where "x = parse_value (Suc (length text)) text"
  have "\<exists>r. x = Some (v, r) \<and> skip_ws r = []"
    using a unfolding JSON_parse_def x_def [symmetric]
    by (cases x) (auto split: if_splits)
  then show "\<exists>n r. parse_value n text = Some (v, r) \<and> skip_ws r = []"
    unfolding x_def by blast
next
  assume "\<exists>n r. parse_value n text = Some (v, r) \<and> skip_ws r = []"
  then obtain n r where p: "parse_value n text = Some (v, r)" and w: "skip_ws r = []"
    by blast
  show "JSON_parse text = Inr v"
    unfolding JSON_parse_def parse_fuel_enough [OF p] using w by simp
qed

section \<open>Base64\<close>

lemma bytes_simps [simp]: "bytes []" "bytes (b # bs) \<longleftrightarrow> b < 256 \<and> bytes bs"
  by (simp_all add: bytes_def)

lemma bytes_append [simp]: "bytes (xs @ ys) \<longleftrightarrow> bytes xs \<and> bytes ys"
  by (simp add: bytes_def)

lemma b64_encode_data: "b64_encode bs = map b64_char (b64_data bs) @ replicate (pad_len bs) 61"
  by (induction bs rule: b64_encode.induct) (simp_all add: numeral_2_eq_2)

lemma pad_len_le: "pad_len bs \<le> 2"
  by (induction bs rule: pad_len.induct) simp_all

lemma b64_data_length: "(length (b64_data bs) + pad_len bs) mod 4 = 0 \<and> length (b64_data bs) mod 4 \<noteq> 1"
  by (induction bs rule: b64_data.induct) simp_all

lemma b64_data_sextets: "bytes bs \<Longrightarrow> list_all (\<lambda>i. i < 64) (b64_data bs)"
  by (induction bs rule: b64_data.induct) auto

lemma b64_decode_data: "bytes bs \<Longrightarrow> b64_decode (b64_data bs) = bs"
  by (induction bs rule: b64_data.induct) auto

lemma b64_char_is_b64: "i < 64 \<Longrightarrow> is_b64 (b64_char i)"
  by (auto simp: is_b64_def b64_char_def is_alnum_def is_digit_def is_upper_def is_lower_def)

lemma b64_index_char: "i < 64 \<Longrightarrow> b64_index (b64_char i) = i"
  by (auto simp: b64_index_def b64_char_def is_digit_def is_upper_def is_lower_def)

lemma is_b64_not_ws: "is_b64 c \<Longrightarrow> \<not> is_ascii_ws c \<and> c \<noteq> 61"
  by (auto simp: is_b64_def is_ascii_ws_def is_alnum_def is_digit_def is_upper_def is_lower_def)

lemma strip_padding_replicate:
  "list_all is_b64 xs \<Longrightarrow> k \<le> 2 \<Longrightarrow> strip_padding (xs @ replicate k 61) = xs"
proof -
  assume x: "list_all is_b64 xs" and k: "k \<le> 2"
  have l: "xs \<noteq> [] \<Longrightarrow> last xs \<noteq> 61"
    using x is_b64_not_ws by (metis last_in_set list_all_iff)
  from k consider "k = 0" | "k = 1" | "k = 2" by linarith
  then show ?thesis
  proof cases
    case 1
    then show ?thesis using l by (auto simp: strip_padding_def)
  next
    case 2
    then show ?thesis using l by (auto simp: strip_padding_def strip_one_def)
  next
    case 3
    then have "xs @ replicate k 61 = (xs @ [61]) @ [61]" by (simp add: numeral_2_eq_2)
    then show ?thesis by (simp add: strip_padding_def strip_one_def del: append_assoc)
  qed
qed

lemma atob_b64_encode: "bytes bs \<Longrightarrow> atob (b64_encode bs) = Inr bs"
proof -
  assume b: "bytes bs"
  let ?d = "map b64_char (b64_data bs)"
  have s: "list_all (\<lambda>i. i < 64) (b64_data bs)" using b by (rule b64_data_sextets)
  have d: "list_all is_b64 ?d"
    using s by (simp add: list_all_iff b64_char_is_b64)
  have f: "filter (\<lambda>c. \<not> is_ascii_ws c) (b64_encode bs) = b64_encode bs"
    using d is_b64_not_ws
    by (auto simp: b64_encode_data list_all_iff is_ascii_ws_def intro!: filter_True)
  have m: "length (b64_encode bs) mod 4 = 0"
    using b64_data_length [of bs] by (simp add: b64_encode_data)
  have p: "strip_padding (b64_encode bs) = ?d"
    unfolding b64_encode_data using d pad_len_le by (rule strip_padding_replicate)
  have n: "length ?d mod 4 \<noteq> 1"
    using b64_data_length [of bs] by simp
  have i: "map b64_index ?d = b64_data bs"
    using s by (simp add: list_all_iff b64_index_char map_idI)
  show ?thesis
    using n d i by (simp add: atob_def f m p b64_decode_data [OF b] del: map_map)
qed

section \<open>The URI functions\<close>

lemma hex_val_upper: "d < 16 \<Longrightarrow> hex_val (hex_upper d) = Some d"
  by (auto simp: hex_val_def hex_upper_def is_digit_def)

lemma hex_upper_not_u: "d < 16 \<Longrightarrow> hex_upper d \<noteq> 117"
  by (auto simp: hex_upper_def)

lemma div_mod_16: "16 * (b div 16) + b mod 16 = (b::nat)"
  by simp

lemma unreserved_small: "uri_unreserved c \<Longrightarrow> c < 128 \<and> c \<noteq> 37 \<and> \<not> is_lead c \<and> \<not> is_trail c"
  by (auto simp: uri_unreserved_def is_alnum_def is_digit_def is_upper_def is_lower_def
      is_lead_def is_trail_def ascii_def)

lemma prepend_Inr [simp]: "prepend xs (Inr ys) = Inr (xs @ ys)"
  by (simp add: prepend_def)

lemma prepend_Inl [simp]: "prepend xs (Inl e) = Inl e"
  by (simp add: prepend_def)

lemma pair_cp_scalar:
  assumes "is_lead c" and "is_trail d"
  shows "scalar (pair_cp c d) \<and> 65536 \<le> pair_cp c d \<and> utf16 (pair_cp c d) = [c, d]"
proof -
  obtain a where a: "c = 55296 + a" "a < 1024"
    using assms(1) by (auto simp: is_lead_def intro: that [of "c - 55296"])
  obtain e where e: "d = 56320 + e" "e < 1024"
    using assms(2) by (auto simp: is_trail_def intro: that [of "d - 56320"])
  have p: "pair_cp c d = 65536 + (a * 1024 + e)"
    by (simp add: pair_cp_def a e)
  have "(a * 1024 + e) div 1024 = a" "(a * 1024 + e) mod 1024 = e"
    using e(2) by simp_all
  then show ?thesis
    unfolding p using a(2) e(2)
    by (simp add: utf16_def scalar_def is_lead_def is_trail_def a(1) e(1))
qed

lemma big_not_unreserved: "65536 \<le> v \<Longrightarrow> \<not> uri_unreserved v"
  using unreserved_small by fastforce

lemma encode_code_points:
  "valid_string t \<Longrightarrow> code_points t = Some cps \<Longrightarrow>
     encodeURIComponent t = Inr (concat (map enc_cp cps)) \<and> list_all scalar cps \<and>
     concat (map utf16 cps) = t"
proof (induction t arbitrary: cps rule: code_points.induct)
  case 1
  then show ?case by simp
next
  case (2 c)
  then show ?case
    by (auto simp: enc_cp_def scalar_def utf16_def valid_string_def split: if_splits
        dest: unreserved_small)
next
  case (3 c d cs)
  show ?case
  proof (cases "is_lead c \<and> is_trail d")
    case True
    with 3 obtain r where r: "code_points cs = Some r" "cps = pair_cp c d # r"
      by auto
    have "valid_string cs" using 3(3) by (simp add: valid_string_def)
    from 3(1) [OF True this r(1)] True pair_cp_scalar [of c d] show ?thesis
      by (auto simp: r enc_cp_def big_not_unreserved is_lead_def is_trail_def
          dest: unreserved_small)
  next
    case False
    with 3 obtain r where r: "code_points (d # cs) = Some r" "cps = c # r"
      and n: "\<not> is_lead c" "\<not> is_trail c"
      by (auto split: if_splits)
    have v: "valid_string (d # cs)" "c < 65536" using 3(3) by (simp_all add: valid_string_def)
    have "\<not> (is_lead c \<or> is_trail c)" using n by simp
    from 3(2) [OF False this v(1) r(1)] n v(2) show ?thesis
      by (auto simp: r enc_cp_def scalar_def utf16_def)
  qed
qed

lemma unescape_plain: "c \<noteq> 37 \<Longrightarrow> unescape (c # r) = c # unescape r"
  by (rule unescape.cases [of "c # r"]) auto

lemma unescape_pct: "b < 256 \<Longrightarrow> unescape (pct b @ r) = b # unescape r"
proof -
  assume b: "b < 256"
  then have h: "hex_val (hex_upper (b div 16)) = Some (b div 16)"
    "hex_val (hex_upper (b mod 16)) = Some (b mod 16)" "hex_upper (b div 16) \<noteq> 117"
    by (simp_all add: hex_val_upper hex_upper_not_u)
  show ?thesis
    by (rule unescape.cases [of "pct b @ r"]) (auto simp: pct_def h)
qed

lemma unescape_pcts: "bytes bs \<Longrightarrow> unescape (concat (map pct bs) @ r) = bs @ unescape r"
  by (induction bs) (simp_all add: unescape_pct)

lemma utf8_bytes: "scalar v \<Longrightarrow> bytes (utf8 v)"
  by (auto simp: scalar_def utf8_def)

lemma unescape_enc_cp: "scalar v \<Longrightarrow> unescape (enc_cp v @ r) = utf8 v @ unescape r"
proof (cases "uri_unreserved v")
  case True
  then have "v < 128" "v \<noteq> 37" using unreserved_small by blast+
  then show ?thesis using True by (simp add: enc_cp_def utf8_def unescape_plain)
next
  case False
  assume "scalar v"
  then show ?thesis using False by (simp add: enc_cp_def unescape_pcts utf8_bytes)
qed

lemma unescape_encoded:
  "list_all scalar cps \<Longrightarrow> unescape (concat (map enc_cp cps)) = concat (map utf8 cps)"
proof (induction cps)
  case Nil
  then show ?case by simp
next
  case (Cons v cps)
  then show ?case using unescape_enc_cp [of v "concat (map enc_cp cps)"] by simp
qed

lemma utf8s_bytes: "list_all scalar cps \<Longrightarrow> bytes (concat (map utf8 cps))"
  by (induction cps) (simp_all add: utf8_bytes)

lemma read_pct_pct: "b < 256 \<Longrightarrow> read_pct (pct b @ r) = Some (b, r)"
  by (simp add: pct_def hex_val_upper)

lemma read_conts_pcts:
  "bytes bs \<Longrightarrow> read_conts (length bs) (concat (map pct bs) @ r) = Some (bs, r)"
  by (induction bs) (simp_all add: read_pct_pct consume_def)

lemma decode_plain: "c \<noteq> 37 \<Longrightarrow> decodeURIComponent (c # r) = prepend [c] (decodeURIComponent r)"
  by simp

lemma decode_pct:
  "b < 256 \<Longrightarrow>
   decodeURIComponent (pct b @ t) =
     (if leading_ones b = 0 then prepend [b] (decodeURIComponent t)
      else if leading_ones b = 1 \<or> leading_ones b > 4 then Inl URIError
      else
        (case read_conts (leading_ones b - 1) t of
           None \<Rightarrow> Inl URIError
         | Some (bs, r') \<Rightarrow>
             (case utf8_decode (b # bs) of
                None \<Rightarrow> Inl URIError
              | Some v \<Rightarrow> prepend (utf16 v) (decodeURIComponent r'))))"
proof -
  assume b: "b < 256"
  define x where "x = tl (pct b @ t)"
  have p: "pct b @ t = 37 # x" by (simp add: x_def pct_def)
  have r: "read_pct (37 # x) = Some (b, t)"
    using read_pct_pct [OF b, of t] by (simp only: p)
  show ?thesis
    unfolding p by (subst decodeURIComponent.simps(2)) (simp add: r)
qed

lemma escape_append: "escape (a @ b) = escape a @ escape b"
  by (simp add: escape_def)

lemma escape_high: "128 \<le> b \<Longrightarrow> b < 256 \<Longrightarrow> escape_unit b = pct b"
  by (auto simp: escape_unit_def escape_unreserved_def is_alnum_def is_digit_def is_upper_def
      is_lower_def ascii_def)

lemma escape_unreserved_plain: "escape_unreserved c \<Longrightarrow> c \<noteq> 37 \<and> c < 128"
  by (auto simp: escape_unreserved_def is_alnum_def is_digit_def is_upper_def
      is_lower_def ascii_def)

lemma decode_ascii:
  assumes "v < 128"
  shows "decodeURIComponent (escape_unit v @ r) = prepend [v] (decodeURIComponent r)"
proof (cases "escape_unreserved v")
  case True
  then show ?thesis using escape_unreserved_plain [of v] by (simp add: escape_unit_def)
next
  case False
  have "escape_unit v = pct v" using False assms by (simp add: escape_unit_def)
  then show ?thesis using assms by (simp add: decode_pct leading_ones_def)
qed

lemma split3: "(v::nat) div 4096 * 4096 + v div 64 mod 64 * 64 + v mod 64 = v"
proof -
  define q r q1 r1 where "q = v div 64" and "r = v mod 64" and "q1 = q div 64" and "r1 = q mod 64"
  have a: "v div 4096 = q1" by (simp add: q1_def q_def div_mult2_eq)
  have b: "v = 64 * q + r" by (simp add: q_def r_def)
  have c: "q = 64 * q1 + r1" by (simp add: q1_def r1_def)
  have "q1 * 4096 + r1 * 64 + r = v" using b c by linarith
  then show ?thesis by (simp add: a q_def r_def q1_def r1_def)
qed

lemma split4:
  "(v::nat) div 262144 * 262144 + v div 4096 mod 64 * 4096 + v div 64 mod 64 * 64 + v mod 64 = v"
proof -
  define p q2 r2 where "p = v div 4096" and "q2 = p div 64" and "r2 = p mod 64"
  define m where "m = v div 64 mod 64 * 64 + v mod 64"
  have a: "v div 262144 = q2" by (simp add: q2_def p_def div_mult2_eq)
  have b: "p * 4096 + m = v" using split3 [of v] by (simp add: p_def m_def)
  have c: "p = 64 * q2 + r2" by (simp add: q2_def r2_def)
  have "q2 * 262144 + r2 * 4096 + m = v" using b c by linarith
  then show ?thesis by (simp add: a p_def q2_def r2_def m_def)
qed

lemma decode_multi:
  assumes a: "a < 256" and n: "leading_ones a = Suc (length bs)"
    and l: "bs \<noteq> []" "length bs \<le> 3"
    and b: "bytes bs" "list_all (\<lambda>b. 128 \<le> b) bs"
    and d: "utf8_decode (a # bs) = Some v"
  shows "decodeURIComponent (escape (a # bs) @ r) = prepend (utf16 v) (decodeURIComponent r)"
proof -
  have "128 \<le> a" using n by (auto simp: leading_ones_def split: if_splits)
  then have ea: "escape_unit a = pct a" using a by (rule escape_high)
  have "\<And>x. x \<in> set bs \<Longrightarrow> escape_unit x = pct x"
    using b by (simp add: bytes_def list_all_iff escape_high)
  then have m: "map escape_unit bs = map pct bs"
    by (rule map_cong [OF refl])
  have e: "escape (a # bs) @ r = pct a @ concat (map pct bs) @ r"
    unfolding escape_def list.map m ea by simp
  have c: "read_conts (leading_ones a - 1) (concat (map pct bs) @ r) = Some (bs, r)"
    using read_conts_pcts [OF b(1), of r] by (simp add: n)
  have k: "leading_ones a \<noteq> 0" "\<not> (leading_ones a = 1 \<or> 4 < leading_ones a)"
    using l by (cases bs; simp add: n)+
  show ?thesis
    unfolding e decode_pct [OF a] c using k by (simp add: d)
qed

lemma decode_two:
  assumes "128 \<le> v" and "v < 2048"
  shows "decodeURIComponent (escape (utf8 v) @ r) = prepend (utf16 v) (decodeURIComponent r)"
proof -
  define a b where "a = 192 + v div 64" and "b = 128 + v mod 64"
  have u: "utf8 v = [a, b]" using assms by (simp add: utf8_def a_def b_def)
  have q: "v div 64 < 32" using assms(2) by (intro less_mult_imp_div_less) simp
  have m: "v mod 64 < 64" by simp
  have a: "a < 256" "leading_ones a = Suc (length [b])"
    using q by (simp_all add: leading_ones_def a_def)
  have "128 \<le> b \<and> b < 192" unfolding b_def using m by linarith
  then have b: "bytes [b]" "list_all (\<lambda>b. 128 \<le> b) [b]" "is_cont b"
    by (simp_all add: is_cont_def)
  have "(a - 192) * 64 + (b - 128) = v" by (simp add: a_def b_def)
  moreover have "scalar_in 128 v = Some v"
    using assms by (simp add: scalar_in_def is_lead_def is_trail_def)
  ultimately have d: "utf8_decode [a, b] = Some v"
    using b(3) by (simp only: utf8_decode.simps if_True simp_thms)
  show ?thesis
    unfolding u using a(1) a(2) _ _ b(1) b(2) d by (rule decode_multi) simp_all
qed

lemma decode_three:
  assumes "2048 \<le> v" and "v < 65536" and "scalar v"
  shows "decodeURIComponent (escape (utf8 v) @ r) = prepend (utf16 v) (decodeURIComponent r)"
proof -
  define a b c where "a = 224 + v div 4096" and "b = 128 + v div 64 mod 64"
    and "c = 128 + v mod 64"
  have u: "utf8 v = [a, b, c]" using assms by (simp add: utf8_def a_def b_def c_def)
  have q: "v div 4096 < 16" using assms(2) by (intro less_mult_imp_div_less) simp
  have m: "v div 64 mod 64 < 64" "v mod 64 < 64" by simp_all
  have a: "a < 256" "leading_ones a = Suc (length [b, c])"
    using q by (simp_all add: leading_ones_def a_def)
  have "128 \<le> b \<and> b < 192" "128 \<le> c \<and> c < 192"
    unfolding b_def c_def using m by linarith+
  then have b: "bytes [b, c]" "list_all (\<lambda>b. 128 \<le> b) [b, c]" "is_cont b \<and> is_cont c"
    by (simp_all add: is_cont_def)
  have "a - 224 = v div 4096" "b - 128 = v div 64 mod 64" "c - 128 = v mod 64"
    by (simp_all add: a_def b_def c_def)
  then have "(a - 224) * 4096 + (b - 128) * 64 + (c - 128) = v"
    by (simp only: split3)
  moreover have "scalar_in 2048 v = Some v"
    using assms by (simp add: scalar_in_def scalar_def)
  ultimately have d: "utf8_decode [a, b, c] = Some v"
    using b(3) by (simp only: utf8_decode.simps if_True simp_thms)
  show ?thesis
    unfolding u using a(1) a(2) _ _ b(1) b(2) d by (rule decode_multi) simp_all
qed

lemma decode_four:
  assumes "65536 \<le> v" and "scalar v"
  shows "decodeURIComponent (escape (utf8 v) @ r) = prepend (utf16 v) (decodeURIComponent r)"
proof -
  define a b c d where "a = 240 + v div 262144" and "b = 128 + v div 4096 mod 64"
    and "c = 128 + v div 64 mod 64" and "d = 128 + v mod 64"
  have le: "v \<le> 1114111" using assms(2) by (simp add: scalar_def)
  have u: "utf8 v = [a, b, c, d]" using assms by (simp add: utf8_def a_def b_def c_def d_def)
  have "v < 8 * 262144" using le by simp
  then have q: "v div 262144 < 8" by (intro less_mult_imp_div_less) simp
  have m: "v div 4096 mod 64 < 64" "v div 64 mod 64 < 64" "v mod 64 < 64" by simp_all
  have a: "a < 256" "leading_ones a = Suc (length [b, c, d])"
    using q by (simp_all add: leading_ones_def a_def)
  have "128 \<le> b \<and> b < 192" "128 \<le> c \<and> c < 192" "128 \<le> d \<and> d < 192"
    unfolding b_def c_def d_def using m by linarith+
  then have b: "bytes [b, c, d]" "list_all (\<lambda>b. 128 \<le> b) [b, c, d]"
    "is_cont b \<and> is_cont c \<and> is_cont d"
    by (simp_all add: is_cont_def)
  have "a - 240 = v div 262144" "b - 128 = v div 4096 mod 64" "c - 128 = v div 64 mod 64"
    "d - 128 = v mod 64"
    by (simp_all add: a_def b_def c_def d_def)
  then have "(a - 240) * 262144 + (b - 128) * 4096 + (c - 128) * 64 + (d - 128) = v"
    by (simp only: split4)
  moreover have "scalar_in 65536 v = Some v"
    using assms by (simp add: scalar_in_def scalar_def)
  ultimately have dd: "utf8_decode [a, b, c, d] = Some v"
    using b(3) by (simp only: utf8_decode.simps if_True simp_thms)
  show ?thesis
    unfolding u using a(1) a(2) _ _ b(1) b(2) dd by (rule decode_multi) simp_all
qed

lemma decode_cp:
  assumes "scalar v"
  shows "decodeURIComponent (escape (utf8 v) @ r) = prepend (utf16 v) (decodeURIComponent r)"
proof -
  consider "v < 128" | "128 \<le> v" "v < 2048" | "2048 \<le> v" "v < 65536" | "65536 \<le> v"
    by linarith
  then show ?thesis
  proof cases
    case 1
    then show ?thesis using decode_ascii [of v r] by (simp add: utf8_def escape_def utf16_def)
  next
    case 2
    then show ?thesis using decode_two [of v r] by simp
  next
    case 3
    then show ?thesis using decode_three [of v r] assms by simp
  next
    case 4
    then show ?thesis using decode_four [of v r] assms by simp
  qed
qed

lemma decode_escaped:
  "list_all scalar cps \<Longrightarrow>
     decodeURIComponent (escape (concat (map utf8 cps))) = Inr (concat (map utf16 cps))"
proof (induction cps)
  case Nil
  then show ?case by (simp add: escape_def)
next
  case (Cons v cps)
  then show ?case
    using decode_cp [of v "escape (concat (map utf8 cps))"]
    by (simp add: escape_append)
qed

section \<open>JSON text of a bundle\<close>

lemma code_points_Cons_plain:
  "\<not> is_lead c \<Longrightarrow> \<not> is_trail c \<Longrightarrow> code_points (c # r) = map_option ((#) c) (code_points r)"
  by (cases r) simp_all

lemma code_points_plain: "plain xs \<Longrightarrow> code_points xs = Some xs"
  by (induction xs) (simp_all add: plain_def code_points_Cons_plain)

lemma code_points_append:
  "code_points a = Some x \<Longrightarrow> code_points b = Some y \<Longrightarrow> code_points (a @ b) = Some (x @ y)"
proof (induction a arbitrary: x rule: code_points.induct)
  case 1
  then show ?case by simp
next
  case (2 c)
  then show ?case by (auto simp: code_points_Cons_plain split: if_splits)
next
  case (3 c d cs)
  then show ?case by (auto split: if_splits)
qed

lemma hex_lower_plain: "d < 16 \<Longrightarrow> hex_lower d < 128"
  by (simp add: hex_lower_def)

lemma ascii_plain_unit: "c < 128 \<Longrightarrow> \<not> is_lead c \<and> \<not> is_trail c"
  by (simp add: is_lead_def is_trail_def)

lemma quote_unit_plain: "plain (quote_unit c)"
proof -
  have "hex_lower (c div 4096) < 128 \<or> \<not> c < 65536" "hex_lower (c div 256 mod 16) < 128"
    "hex_lower (c div 16 mod 16) < 128" "hex_lower (c mod 16) < 128"
    by (auto simp: hex_lower_def)
  then show ?thesis
    by (auto simp: plain_def quote_unit_def unicode_escape_def is_lead_def is_trail_def hex_lower_def)
qed

lemma quote_body_pair:
  "is_lead c \<Longrightarrow> is_trail d \<Longrightarrow> quote_body (c # d # cs) = c # d # quote_body cs"
  by simp

lemma quote_body_step:
  "\<not> (is_lead c \<and> is_trail d) \<Longrightarrow>
     quote_body (c # d # cs) = quote_unit c @ quote_body (d # cs)"
  by auto

lemma quote_body_code_points: "\<exists>cps. code_points (quote_body s) = Some cps"
proof (induction s rule: quote_body.induct)
  case 1
  then show ?case by simp
next
  case (2 c)
  then show ?case using code_points_plain [OF quote_unit_plain] by simp
next
  case (3 c d cs)
  show ?case
  proof (cases "is_lead c \<and> is_trail d")
    case True
    then obtain r where "code_points (quote_body cs) = Some r" using 3(1) by blast
    then have "code_points (c # d # quote_body cs) = Some (pair_cp c d # r)"
      using True by simp
    then show ?thesis using True by (simp only: quote_body_pair) simp
  next
    case False
    then obtain r where r: "code_points (quote_body (d # cs)) = Some r" using 3(2) by blast
    show ?thesis
      unfolding quote_body_step [OF False]
      using code_points_append [OF code_points_plain [OF quote_unit_plain [of c]] r]
      by simp
  qed
qed

lemma valid_string_append [simp]:
  "valid_string (a @ b) \<longleftrightarrow> valid_string a \<and> valid_string b"
  by (simp add: valid_string_def)

lemma valid_string_Cons [simp]: "valid_string (c # cs) \<longleftrightarrow> c < 65536 \<and> valid_string cs"
  by (simp add: valid_string_def)

lemma valid_string_Nil [simp]: "valid_string []"
  by (simp add: valid_string_def)

lemma hex_lower_small: "d < 16 \<Longrightarrow> hex_lower d < 128"
  by (simp add: hex_lower_def)

lemma quote_unit_valid: "c < 65536 \<Longrightarrow> valid_string (quote_unit c)"
proof -
  assume c: "c < 65536"
  then have "c div 4096 < 16" by (intro less_mult_imp_div_less) simp
  then have "hex_lower (c div 4096) < 65536" "hex_lower (c div 256 mod 16) < 65536"
    "hex_lower (c div 16 mod 16) < 65536" "hex_lower (c mod 16) < 65536"
    using hex_lower_small [of "c div 4096"] hex_lower_small [of "c div 256 mod 16"]
      hex_lower_small [of "c div 16 mod 16"] hex_lower_small [of "c mod 16"]
    by simp_all
  then show ?thesis using c by (simp add: quote_unit_def unicode_escape_def)
qed

lemma quote_body_valid: "valid_string s \<Longrightarrow> valid_string (quote_body s)"
proof (induction s rule: quote_body.induct)
  case 1
  then show ?case by simp
next
  case (2 c)
  then show ?case by (simp add: quote_unit_valid)
next
  case (3 c d cs)
  then have v: "valid_string (quote_unit c)" "valid_string cs" "valid_string (d # cs)"
    "c < 65536" "d < 65536"
    by (simp_all add: quote_unit_valid)
  show ?case
  proof (cases "is_lead c \<and> is_trail d")
    case True
    then have "valid_string (quote_body cs)" using 3(1) v(2) by blast
    then show ?thesis using True v by (simp only: quote_body_pair) simp
  next
    case False
    then have "valid_string (quote_body (d # cs))" using 3(2) v(3) by blast
    then show ?thesis unfolding quote_body_step [OF False] using v(1) by simp
  qed
qed

lemma hex_val_lower: "d < 16 \<Longrightarrow> hex_val (hex_lower d) = Some d"
  by (auto simp: hex_val_def hex_lower_def is_digit_def)

lemma split16: "c < 65536 \<Longrightarrow>
  4096 * (c div 4096) + 256 * (c div 256 mod 16) + 16 * (c div 16 mod 16) + c mod 16 = (c::nat)"
proof -
  define q r q1 r1 q2 r2 where "q = c div 16" and "r = c mod 16" and "q1 = q div 16"
    and "r1 = q mod 16" and "q2 = q1 div 16" and "r2 = q1 mod 16"
  have a: "c div 256 = q1" "c div 4096 = q2"
    by (simp_all add: q1_def q2_def q_def div_mult2_eq)
  have b: "c = 16 * q + r" "q = 16 * q1 + r1" "q1 = 16 * q2 + r2"
    by (simp_all add: q_def r_def q1_def r1_def q2_def r2_def)
  have "4096 * q2 + 256 * r2 + 16 * r1 + r = c" using b by linarith
  then show ?thesis by (simp add: a q_def r_def q1_def r1_def q2_def r2_def)
qed

lemma hex4_escape:
  assumes "c < 65536"
  shows "hex4 (hex_lower (c div 4096)) (hex_lower (c div 256 mod 16))
           (hex_lower (c div 16 mod 16)) (hex_lower (c mod 16)) = Some c"
proof -
  have "c div 4096 < 16" using assms by (intro less_mult_imp_div_less) simp
  then show ?thesis
    using split16 [OF assms] by (simp add: hex4_def hex_val_lower)
qed

lemma parse_chars_plain:
  "32 \<le> c \<Longrightarrow> c \<noteq> 34 \<Longrightarrow> c \<noteq> 92 \<Longrightarrow> parse_chars (c # r) = consume c (parse_chars r)"
  by simp

lemma parse_chars_unicode:
  "c < 65536 \<Longrightarrow> parse_chars (unicode_escape c @ r) = consume c (parse_chars r)"
  by (simp add: unicode_escape_def hex4_escape)

lemma parse_chars_quote_unit:
  assumes "c < 65536"
  shows "parse_chars (quote_unit c @ r) = consume c (parse_chars r)"
proof -
  consider "c = 8" | "c = 9" | "c = 10" | "c = 12" | "c = 13" | "c = 34" | "c = 92"
    | "c \<notin> {8, 9, 10, 12, 13, 34, 92}" "c < 32 \<or> is_lead c \<or> is_trail c"
    | "c \<notin> {8, 9, 10, 12, 13, 34, 92}" "\<not> (c < 32 \<or> is_lead c \<or> is_trail c)"
    by blast
  then show ?thesis
  proof cases
    case 8
    then have "quote_unit c = unicode_escape c" by (simp add: quote_unit_def)
    then show ?thesis using assms by (simp add: parse_chars_unicode)
  next
    case 9
    then have "quote_unit c = [c]" by (simp add: quote_unit_def)
    then show ?thesis using 9 by simp
  qed (simp_all add: quote_unit_def simple_escape_def)
qed

lemma consume_Some [simp]: "consume c (Some (s, r)) = Some (c # s, r)"
  by (simp add: consume_def)

lemma parse_chars_quote_body:
  "valid_string s \<Longrightarrow> parse_chars (quote_body s @ 34 # r) = Some (s, r)"
proof (induction s rule: quote_body.induct)
  case 1
  then show ?case by simp
next
  case (2 c)
  then show ?case by (simp add: parse_chars_quote_unit)
next
  case (3 c d cs)
  then have v: "valid_string cs" "valid_string (d # cs)" "c < 65536" "d < 65536"
    by simp_all
  show ?case
  proof (cases "is_lead c \<and> is_trail d")
    case True
    then have i: "parse_chars (quote_body cs @ 34 # r) = Some (cs, r)" using 3(1) v(1) by blast
    have p: "32 \<le> c" "c \<noteq> 34" "c \<noteq> 92" "32 \<le> d" "d \<noteq> 34" "d \<noteq> 92"
      using True by (simp_all add: is_lead_def is_trail_def)
    have "parse_chars (c # d # quote_body cs @ 34 # r) = Some (c # d # cs, r)"
      unfolding parse_chars_plain [OF p(1-3)] parse_chars_plain [OF p(4-6)] i consume_Some
      by (rule refl)
    then show ?thesis using True by (simp only: quote_body_pair append_Cons)
  next
    case False
    then have i: "parse_chars (quote_body (d # cs) @ 34 # r) = Some (d # cs, r)"
      using 3(2) v(2) by blast
    show ?thesis
      unfolding quote_body_step [OF False]
      by (simp only: append_assoc parse_chars_quote_unit [OF v(3)] i consume_Some)
  qed
qed

lemma skip_ws_Cons: "\<not> is_ws c \<Longrightarrow> skip_ws (c # r) = c # r"
  by (simp add: skip_ws_def)

lemma skip_ws_Nil [simp]: "skip_ws [] = []"
  by (simp add: skip_ws_def)

lemma not_ws: "\<not> is_ws 34" "\<not> is_ws 58" "\<not> is_ws 44" "\<not> is_ws 125" "\<not> is_ws 123"
  by (simp_all add: is_ws_def)

lemma parse_string_value:
  assumes "valid_string s"
  shows "parse_value (Suc n) (34 # quote_body s @ 34 # r) = Some (JStr s, r)"
  by (subst parse_value.simps)
     (simp add: skip_ws_Cons not_ws parse_chars_quote_body [OF assms])

lemma parse_member:
  assumes "valid_string k" and "valid_string s" and "d = 44 \<or> d = 125"
  shows "parse_members (Suc (Suc n)) acc
           (34 # quote_body k @ 34 # 58 # 34 # quote_body s @ 34 # d # r) =
         (if d = 44 then parse_members (Suc n) (obj_set k (JStr s) acc) r
          else Some (JObj (obj_set k (JStr s) acc), r))"
proof -
  have d: "\<not> is_ws d" using assms(3) by (auto simp: is_ws_def)
  show ?thesis
    apply (subst parse_members.simps)
    using assms(3)
    apply (simp only: skip_ws_Cons [OF not_ws(1)] skip_ws_Cons [OF not_ws(2)] skip_ws_Cons [OF d]
        parse_chars_quote_body [OF assms(1)] parse_string_value [OF assms(2)]
        list.case option.case prod.case simp_thms if_True if_False)
    apply auto
    done
qed

lemma stringify_bundle:
  "JSON_stringify (bundle_json b) =
     123 # 34 # quote_body (ascii ''html'') @ 34 # 58 # 34 # quote_body (html b) @ 34 # 44 #
     34 # quote_body (ascii ''css'') @ 34 # 58 # 34 # quote_body (css b) @ 34 # 44 #
     34 # quote_body (ascii ''js'') @ 34 # 58 # 34 # quote_body (js b) @ 34 # [125]"
  by (simp add: bundle_json_def QuoteJSONString_def)

lemma keys_valid:
  "valid_string (ascii ''html'')" "valid_string (ascii ''css'')" "valid_string (ascii ''js'')"
  by (simp_all add: ascii_def)

lemma keys_distinct:
  "ascii ''html'' \<noteq> ascii ''css''" "ascii ''html'' \<noteq> ascii ''js''" "ascii ''css'' \<noteq> ascii ''js''"
  by (simp_all add: ascii_def)

lemma parse_bundle_fuel:
  assumes "valid_bundle b"
  shows "parse_value (Suc (Suc (Suc (Suc (Suc n))))) (JSON_stringify (bundle_json b)) =
           Some (bundle_json b, [])"
proof -
  have v: "valid_string (html b)" "valid_string (css b)" "valid_string (js b)"
    using assms by (simp_all add: valid_bundle_def)
  define m3 where "m3 = 34 # quote_body (ascii ''js'') @ 34 # 58 # 34 # quote_body (js b) @ 34 # 125 # []"
  define m2 where "m2 = 34 # quote_body (ascii ''css'') @ 34 # 58 # 34 # quote_body (css b) @ 34 # 44 # m3"
  define m1 where "m1 = 34 # quote_body (ascii ''html'') @ 34 # 58 # 34 # quote_body (html b) @ 34 # 44 # m2"
  have t: "JSON_stringify (bundle_json b) = 123 # m1"
    by (simp add: stringify_bundle m1_def m2_def m3_def)
  have o: "obj_set (ascii ''js'') (JStr (js b))
             (obj_set (ascii ''css'') (JStr (css b))
               (obj_set (ascii ''html'') (JStr (html b)) [])) = 
           [(ascii ''html'', JStr (html b)), (ascii ''css'', JStr (css b)),
            (ascii ''js'', JStr (js b))]"
    using keys_distinct keys_distinct [symmetric] by simp
  have p3: "parse_members (Suc (Suc n)) acc m3 =
      Some (JObj (obj_set (ascii ''js'') (JStr (js b)) acc), [])" for acc
    unfolding m3_def using parse_member [OF keys_valid(3) v(3), of 125 n acc "[]"] by simp
  have p2: "parse_members (Suc (Suc (Suc n))) acc m2 =
      parse_members (Suc (Suc n)) (obj_set (ascii ''css'') (JStr (css b)) acc) m3" for acc
    unfolding m2_def using parse_member [OF keys_valid(2) v(2), of 44 "Suc n" acc m3] by simp
  have p1: "parse_members (Suc (Suc (Suc (Suc n)))) acc m1 =
      parse_members (Suc (Suc (Suc n))) (obj_set (ascii ''html'') (JStr (html b)) acc) m2" for acc
    unfolding m1_def using parse_member [OF keys_valid(1) v(1), of 44 "Suc (Suc n)" acc m2] by simp
  have h: "m1 = 34 # tl m1" by (simp add: m1_def)
  have "parse_value (Suc (Suc (Suc (Suc (Suc n))))) (123 # m1) =
      parse_members (Suc (Suc (Suc (Suc n)))) [] m1"
    apply (subst parse_value.simps)
    apply (subst (1 2) h)
    apply (simp only: skip_ws_Cons [OF not_ws(5)] skip_ws_Cons [OF not_ws(1)] list.case)
    apply (simp add: h [symmetric])
    done
  then show ?thesis
    unfolding t p1 p2 p3 o by (simp add: bundle_json_def)
qed

lemma parse_bundle:
  assumes "valid_bundle b"
  shows "JSON_parse (JSON_stringify (bundle_json b)) = Inr (bundle_json b)"
proof -
  have "4 \<le> length (JSON_stringify (bundle_json b))"
    by (simp add: stringify_bundle)
  then obtain n where "length (JSON_stringify (bundle_json b)) = 4 + n"
    using le_iff_add by blast
  then have "Suc (length (JSON_stringify (bundle_json b))) = Suc (Suc (Suc (Suc (Suc n))))"
    by simp
  then show ?thesis
    using parse_bundle_fuel [OF assms, of n] by (simp add: JSON_parse_def)
qed

section \<open>The share round trip\<close>

lemma wf_Cons:
  "c < 128 \<Longrightarrow> \<exists>cps. code_points r = Some cps \<Longrightarrow> \<exists>cps. code_points (c # r) = Some cps"
  by (auto simp: code_points_Cons_plain is_lead_def is_trail_def)

lemma wf_append:
  "\<exists>cps. code_points a = Some cps \<Longrightarrow> \<exists>cps. code_points r = Some cps \<Longrightarrow>
     \<exists>cps. code_points (a @ r) = Some cps"
  using code_points_append by blast

lemma stringify_bundle_wf:
  assumes "valid_bundle b"
  shows "valid_string (JSON_stringify (bundle_json b))"
    and "\<exists>cps. code_points (JSON_stringify (bundle_json b)) = Some cps"
proof -
  have v: "valid_string (html b)" "valid_string (css b)" "valid_string (js b)"
    using assms by (simp_all add: valid_bundle_def)
  show "valid_string (JSON_stringify (bundle_json b))"
    unfolding stringify_bundle
    by (simp add: quote_body_valid v keys_valid)
  have e: "\<exists>cps. code_points [125] = Some cps" by (simp add: is_lead_def is_trail_def)
  show "\<exists>cps. code_points (JSON_stringify (bundle_json b)) = Some cps"
    unfolding stringify_bundle
    by (intro wf_Cons wf_append quote_body_code_points e) simp_all
qed

lemma share_pipeline:
  assumes "valid_string t" and "code_points t = Some cps"
  shows "\<exists>bs. bytes bs \<and> encodeURIComponent t = Inr (concat (map enc_cp cps)) \<and>
           unescape (concat (map enc_cp cps)) = bs \<and>
           decodeURIComponent (escape bs) = Inr t"
proof -
  from encode_code_points [OF assms]
  have e: "encodeURIComponent t = Inr (concat (map enc_cp cps))" and s: "list_all scalar cps"
    and t: "concat (map utf16 cps) = t"
    by simp_all
  have u: "unescape (concat (map enc_cp cps)) = concat (map utf8 cps)"
    using s by (rule unescape_encoded)
  have "decodeURIComponent (escape (concat (map utf8 cps))) = Inr t"
    using decode_escaped [OF s] t by simp
  then show ?thesis using e u utf8s_bytes [OF s] by simp
qed

lemma encodeState_wf:
  assumes "valid_string (JSON_stringify s)" and "code_points (JSON_stringify s) = Some cps"
  shows "\<exists>bs. bytes bs \<and> encodeState s = b64_encode bs \<and>
           decodeURIComponent (escape bs) = Inr (JSON_stringify s)"
proof -
  from share_pipeline [OF assms] obtain bs where b: "bytes bs"
    and e: "encodeURIComponent (JSON_stringify s) = Inr (concat (map enc_cp cps))"
    and u: "unescape (concat (map enc_cp cps)) = bs"
    and d: "decodeURIComponent (escape bs) = Inr (JSON_stringify s)"
    by blast
  have "encodeState s = b64_encode bs"
    using b by (simp add: encodeState_def e u btoa_def bytes_def)
  then show ?thesis using b d by blast
qed

text \<open>
  C1. For every bundle whose three buffers are valid strings, decoding the share token of
  the bundle gives the bundle back: \<open>encodeState\<close> succeeds (its result is the base64
  text of the UTF-8 bytes of the JSON text), and \<open>decodeState\<close> of that token is the
  object with the same three fields.
\<close>

theorem share_round_trip:
  assumes "valid_bundle b"
  shows "decodeState (encodeState (bundle_json b)) = bundle_json b"
proof -
  obtain cps where "code_points (JSON_stringify (bundle_json b)) = Some cps"
    using stringify_bundle_wf(2) [OF assms] by blast
  from encodeState_wf [OF stringify_bundle_wf(1) [OF assms] this]
  obtain bs where b: "bytes bs" and e: "encodeState (bundle_json b) = b64_encode bs"
    and d: "decodeURIComponent (escape bs) = Inr (JSON_stringify (bundle_json b))"
    by blast
  show ?thesis
    by (simp add: decodeState_def e atob_b64_encode [OF b] d parse_bundle [OF assms])
qed

theorem share_round_trip_witness:
  "valid_bundle DEFAULT_TEMPLATE \<and>
   decodeState (encodeState (bundle_json DEFAULT_TEMPLATE)) = bundle_json DEFAULT_TEMPLATE"
proof -
  have h: "valid_bundle DEFAULT_TEMPLATE"
    by (simp add: valid_bundle_def DEFAULT_TEMPLATE_def valid_string_def ascii_def)
  show ?thesis
    using h share_round_trip [OF h] by simp
qed



section \<open>UTF-8 and the form encoding\<close>

lemma ascii_only_simps [simp]:
  "ascii_only []" "ascii_only (c # cs) \<longleftrightarrow> c < 128 \<and> ascii_only cs"
  "ascii_only (xs @ ys) \<longleftrightarrow> ascii_only xs \<and> ascii_only ys"
  by (simp_all add: ascii_only_def)










lemma not_alnum: "\<not> is_alnum 38" "\<not> is_alnum 61" "\<not> is_alnum 43"
  by (simp_all add: is_alnum_def is_digit_def is_upper_def is_lower_def)



lemma utf8_lossy_scalar:
  "lossy_ok cp need lo hi \<Longrightarrow> list_all scalar (utf8_lossy cp need lo hi bs)"
proof (induction cp need lo hi bs rule: utf8_lossy.induct)
  case (1 cp need lo hi)
  then show ?case by (simp add: scalar_def is_lead_def is_trail_def)
next
  case (2 cp need lo hi b bs)
  have s: "scalar 65533" by (simp add: scalar_def is_lead_def is_trail_def)
  have z: "lossy_ok 0 0 128 191" by (simp add: lossy_ok_def)
  show ?case
  proof (cases "need = 0")
    case True
    consider "b < 128" | "194 \<le> b" "b \<le> 223" | "224 \<le> b" "b \<le> 239" | "240 \<le> b" "b \<le> 244"
      | "\<not> b < 128" "\<not> (194 \<le> b \<and> b \<le> 223)" "\<not> (224 \<le> b \<and> b \<le> 239)" "\<not> (240 \<le> b \<and> b \<le> 244)"
      by linarith
    then show ?thesis
    proof cases
      case 1
      then show ?thesis using True 2(1) [OF True 1 z]
        by (simp add: scalar_def is_lead_def is_trail_def)
    next
      case 2
      have n: "\<not> b < 128" using 2 by simp
      have "lossy_ok (b - 192) 1 128 191" using 2 by (auto simp: lossy_ok_def)
      then show ?thesis using True 2 n "2.IH"(2) [OF True n] by simp
    next
      case 3
      have n: "\<not> b < 128" "\<not> (194 \<le> b \<and> b \<le> 223)" using 3 by simp_all
      have "lossy_ok (b - 224) 2 (if b = 224 then 160 else 128) (if b = 237 then 159 else 191)"
        using 3 by (auto simp: lossy_ok_def)
      then show ?thesis using True 3 n "2.IH"(3) [OF True n] by simp
    next
      case 4
      have n: "\<not> b < 128" "\<not> (194 \<le> b \<and> b \<le> 223)" "\<not> (224 \<le> b \<and> b \<le> 239)" using 4 by simp_all
      have "lossy_ok (b - 240) 3 (if b = 240 then 144 else 128) (if b = 244 then 143 else 191)"
        using 4 by (auto simp: lossy_ok_def)
      then show ?thesis using True 4 n "2.IH"(4) [OF True n] by simp
    next
      case 5
      have "utf8_lossy cp need lo hi (b # bs) = 65533 # utf8_lossy 0 0 128 191 bs"
        by (subst utf8_lossy.simps(2)) (simp only: True 5 if_True if_False simp_thms)
      then show ?thesis using s "2.IH"(5) [OF True 5 z] by simp
    qed
  next
    case False
    note nz = False
    show ?thesis
    proof (cases "b < lo \<or> hi < b")
      case True
      then show ?thesis using nz s "2.IH"(6) [OF nz True z] by simp
    next
      case False
      then have r: "lo \<le> b" "b \<le> hi" by simp_all
      show ?thesis
      proof (cases "need = 1")
        case True
        have bnd: "128 \<le> lo" "hi \<le> 191" "cp \<le> 17407" "cp < 864 \<or> 896 \<le> cp"
          using True "2.prems" by (auto simp: lossy_ok_def)
        define x where "x = b - 128"
        have xb: "b = x + 128" using r bnd by (simp add: x_def)
        have x63: "x \<le> 63" using r bnd xb by linarith
        have "cp * 64 + x \<le> 1114111" using bnd(3) x63 by linarith
        moreover have "cp * 64 + x < 55296 \<or> 57344 \<le> cp * 64 + x"
          using bnd(4) x63 by linarith
        ultimately have "scalar (cp * 64 + x)"
          by (auto simp: scalar_def is_lead_def is_trail_def)
        then have "scalar (cp * 64 + (b - 128))" by (simp add: x_def)
        then show ?thesis using nz False True "2.IH"(7) [OF nz False True z] by simp
      next
        case n1: False
        have bnd: "128 \<le> lo" "hi \<le> 191" using nz "2.prems" by (auto simp: lossy_ok_def)
        define x where "x = b - 128"
        have xb: "b = x + 128" using r bnd by (simp add: x_def)
        have x63: "x \<le> 63" using r bnd xb by linarith
        from "2.prems" nz n1 consider
            (two) "need = 2" "cp \<le> 271" "cp \<noteq> 13 \<or> hi \<le> 159"
          | (three) "need = 3" "cp \<le> 4" "cp \<le> 3 \<or> hi \<le> 143" "1 \<le> cp \<or> 142 \<le> lo"
          by (auto simp: lossy_ok_def)
        then have "lossy_ok (cp * 64 + x) (need - 1) 128 191"
        proof cases
          case two
          have a: "cp * 64 + x \<le> 17407" using two(2) x63 by linarith
          have "cp * 64 + x < 864 \<or> 896 \<le> cp * 64 + x"
          proof (cases "cp \<le> 12")
            case True
            then show ?thesis using x63 by linarith
          next
            case c12: False
            show ?thesis
            proof (cases "cp = 13")
              case True
              then have "x \<le> 31" using two(3) r xb by linarith
              then show ?thesis using True by linarith
            next
              case False
              then have "14 \<le> cp" using c12 by linarith
              then show ?thesis by linarith
            qed
          qed
          then show ?thesis using a by (simp add: lossy_ok_def two(1))
        next
          case three
          have a: "cp * 64 + x \<le> 271"
          proof (cases "cp \<le> 3")
            case True
            then show ?thesis using x63 by linarith
          next
            case False
            then have "cp = 4" "x \<le> 15" using three(2,3) r xb by linarith+
            then show ?thesis by linarith
          qed
          have "cp * 64 + x \<noteq> 13"
          proof (cases "1 \<le> cp")
            case True
            then show ?thesis by linarith
          next
            case False
            then have "14 \<le> x" using three(4) r xb by linarith
            then show ?thesis by linarith
          qed
          then show ?thesis using a by (simp add: lossy_ok_def three(1))
        qed
        then have "lossy_ok (cp * 64 + (b - 128)) (need - 1) 128 191" by (simp add: x_def)
        then show ?thesis using nz False n1 "2.IH"(8) [OF nz False n1] by simp
      qed
    qed
  qed
qed

lemma lossy_two:
  assumes "128 \<le> v" and "v < 2048"
  shows "utf8_lossy 0 0 128 191 (utf8 v @ r) = v # utf8_lossy 0 0 128 191 r"
proof -
  define a b where "a = 192 + v div 64" and "b = 128 + v mod 64"
  have u: "utf8 v = [a, b]" using assms by (simp add: utf8_def a_def b_def)
  have q: "v div 64 < 32" using assms(2) by (intro less_mult_imp_div_less) simp
  have m: "v mod 64 < 64" by simp
  have "v = 64 * (v div 64) + v mod 64" by simp
  then have q2: "2 \<le> v div 64" using assms(1) m by linarith
  have a: "194 \<le> a" "a \<le> 223" using q q2 by (simp_all add: a_def)
  have b: "128 \<le> b" "b \<le> 191" unfolding b_def using m by linarith+
  have e: "(a - 192) * 64 + (b - 128) = v" by (simp add: a_def b_def)
  show ?thesis
    unfolding u using a b e by simp
qed

lemma lossy_three:
  assumes "2048 \<le> v" and "v < 65536" and "scalar v"
  shows "utf8_lossy 0 0 128 191 (utf8 v @ r) = v # utf8_lossy 0 0 128 191 r"
proof -
  define a b c where "a = 224 + v div 4096" and "b = 128 + v div 64 mod 64"
    and "c = 128 + v mod 64"
  have u: "utf8 v = [a, b, c]" using assms by (simp add: utf8_def a_def b_def c_def)
  have q: "v div 4096 < 16" using assms(2) by (intro less_mult_imp_div_less) simp
  have m: "v div 64 mod 64 < 64" "v mod 64 < 64" by simp_all
  have a: "224 \<le> a" "a \<le> 239" using q by (simp_all add: a_def)
  have b: "128 \<le> b" "b \<le> 191" "128 \<le> c" "c \<le> 191"
    unfolding b_def c_def using m by linarith+
  have s: "v div 4096 * 4096 + v div 64 mod 64 * 64 + v mod 64 = v" by (rule split3)
  have lo: "160 \<le> b" if "a = 224"
  proof -
    have "v div 4096 = 0" using that by (simp add: a_def)
    then have "v div 64 mod 64 * 64 + v mod 64 = v" using s by simp
    then have "32 \<le> v div 64 mod 64" using assms(1) m by linarith
    then show ?thesis by (simp add: b_def)
  qed
  have hi: "b \<le> 159" if "a = 237"
  proof -
    have "v div 4096 = 13" using that by (simp add: a_def)
    then have "53248 + v div 64 mod 64 * 64 + v mod 64 = v" using s by simp
    then have e: "v = 53248 + v div 64 mod 64 * 64 + v mod 64" by simp
    then have "v < 57344" using m by linarith
    then have "v < 55296" using assms(3) by (auto simp: scalar_def is_lead_def is_trail_def)
    then have "v div 64 mod 64 < 32" using e by linarith
    then show ?thesis by (simp add: b_def)
  qed
  have e: "((a - 224) * 64 + (b - 128)) * 64 + (c - 128) = v"
    using s by (simp add: a_def b_def c_def algebra_simps)
  have n: "\<not> a < 128" "\<not> (194 \<le> a \<and> a \<le> 223)" using a by simp_all
  have r: "\<not> (b < (if a = 224 then 160 else 128) \<or> (if a = 237 then 159 else 191) < b)"
    using lo hi b by auto
  have r2: "\<not> (c < 128 \<or> 191 < c)" using b by simp
  show ?thesis
    unfolding u using a n r r2 e by simp
qed

lemma lossy_four:
  assumes "65536 \<le> v" and "scalar v"
  shows "utf8_lossy 0 0 128 191 (utf8 v @ r) = v # utf8_lossy 0 0 128 191 r"
proof -
  define a b c d where "a = 240 + v div 262144" and "b = 128 + v div 4096 mod 64"
    and "c = 128 + v div 64 mod 64" and "d = 128 + v mod 64"
  have le: "v \<le> 1114111" using assms(2) by (simp add: scalar_def)
  have u: "utf8 v = [a, b, c, d]" using assms by (simp add: utf8_def a_def b_def c_def d_def)
  have "v < 5 * 262144" using le by simp
  then have q: "v div 262144 < 5" by (intro less_mult_imp_div_less) simp
  have m: "v div 4096 mod 64 < 64" "v div 64 mod 64 < 64" "v mod 64 < 64" by simp_all
  have a: "240 \<le> a" "a \<le> 244" using q by (simp_all add: a_def)
  have b: "128 \<le> b" "b \<le> 191" "128 \<le> c" "c \<le> 191" "128 \<le> d" "d \<le> 191"
    unfolding b_def c_def d_def using m by linarith+
  have s: "v div 262144 * 262144 + v div 4096 mod 64 * 4096 + v div 64 mod 64 * 64 + v mod 64 = v"
    by (rule split4)
  have lo: "144 \<le> b" if "a = 240"
  proof -
    have "v div 262144 = 0" using that by (simp add: a_def)
    then have "v div 4096 mod 64 * 4096 + v div 64 mod 64 * 64 + v mod 64 = v" using s by simp
    then have "16 \<le> v div 4096 mod 64" using assms(1) m by linarith
    then show ?thesis by (simp add: b_def)
  qed
  have hi: "b \<le> 143" if "a = 244"
  proof -
    have "v div 262144 = 4" using that by (simp add: a_def)
    then have "1048576 + v div 4096 mod 64 * 4096 + v div 64 mod 64 * 64 + v mod 64 = v"
      using s by simp
    then have "v div 4096 mod 64 < 16" using le by linarith
    then show ?thesis by (simp add: b_def)
  qed
  have e: "(((a - 240) * 64 + (b - 128)) * 64 + (c - 128)) * 64 + (d - 128) = v"
    using s by (simp add: a_def b_def c_def d_def algebra_simps)
  have n: "\<not> a < 128" "\<not> (194 \<le> a \<and> a \<le> 223)" "\<not> (224 \<le> a \<and> a \<le> 239)" using a by simp_all
  have r: "\<not> (b < (if a = 240 then 144 else 128) \<or> (if a = 244 then 143 else 191) < b)"
    using lo hi b by auto
  have r2: "\<not> (c < 128 \<or> 191 < c)" "\<not> (d < 128 \<or> 191 < d)" using b by simp_all
  show ?thesis
    unfolding u using a n r r2 e by simp
qed

lemma lossy_cp:
  assumes "scalar v"
  shows "utf8_lossy 0 0 128 191 (utf8 v @ r) = v # utf8_lossy 0 0 128 191 r"
proof -
  consider "v < 128" | "128 \<le> v" "v < 2048" | "2048 \<le> v" "v < 65536" | "65536 \<le> v"
    by linarith
  then show ?thesis
  proof cases
    case 1
    then show ?thesis by (simp add: utf8_def)
  next
    case 2
    then show ?thesis by (rule lossy_two)
  next
    case 3
    then show ?thesis using assms by (intro lossy_three)
  next
    case 4
    then show ?thesis using assms by (intro lossy_four)
  qed
qed

lemma lossy_cps:
  "list_all scalar cps \<Longrightarrow>
     utf8_lossy 0 0 128 191 (concat (map utf8 cps) @ r) = cps @ utf8_lossy 0 0 128 191 r"
  by (induction cps) (simp_all add: lossy_cp)

lemma usv_utf8_Cons_plain:
  "\<not> is_lead c \<Longrightarrow> \<not> is_trail c \<Longrightarrow> usv_utf8 (c # r) = utf8 c @ usv_utf8 r"
  by (cases r) simp_all

lemma usv_utf8_pair:
  "is_lead c \<Longrightarrow> is_trail d \<Longrightarrow> usv_utf8 (c # d # r) = utf8 (pair_cp c d) @ usv_utf8 r"
  by simp

lemma utf16_units:
  assumes "scalar v"
  shows "v < 65536 \<and> utf16 v = [v] \<and> \<not> is_lead v \<and> \<not> is_trail v \<or>
         (\<exists>c d. utf16 v = [c, d] \<and> is_lead c \<and> is_trail d \<and> pair_cp c d = v \<and>
            c < 65536 \<and> d < 65536)"
proof (cases "v < 65536")
  case True
  then show ?thesis using assms by (simp add: utf16_def scalar_def)
next
  case False
  define w where "w = v - 65536"
  have v: "v = 65536 + w" using False by (simp add: w_def)
  have "w < 1024 * 1024" using assms by (simp add: scalar_def v)
  then have q: "w div 1024 < 1024" by (intro less_mult_imp_div_less) simp
  have m: "w mod 1024 < 1024" by simp
  have e: "w div 1024 * 1024 + w mod 1024 = w" by simp
  have "utf16 v = [55296 + w div 1024, 56320 + w mod 1024]"
    using False by (simp add: utf16_def w_def)
  moreover have "is_lead (55296 + w div 1024)" using q by (simp add: is_lead_def)
  moreover have "is_trail (56320 + w mod 1024)" using m by (simp add: is_trail_def)
  moreover have "pair_cp (55296 + w div 1024) (56320 + w mod 1024) = v"
    unfolding pair_cp_def v using e by simp
  moreover have "55296 + w div 1024 < 65536" "56320 + w mod 1024 < 65536"
    using q m by simp_all
  ultimately show ?thesis using False by blast
qed

lemma code_points_utf16:
  "list_all scalar cps \<Longrightarrow>
     code_points (concat (map utf16 cps)) = Some cps \<and> valid_string (concat (map utf16 cps)) \<and>
     usv_utf8 (concat (map utf16 cps)) = concat (map utf8 cps)"
proof (induction cps)
  case Nil
  then show ?case by simp
next
  case (Cons v cps)
  then have ih: "code_points (concat (map utf16 cps)) = Some cps"
    "valid_string (concat (map utf16 cps))"
    "usv_utf8 (concat (map utf16 cps)) = concat (map utf8 cps)"
    and v: "scalar v"
    by simp_all
  from utf16_units [OF v] show ?case
  proof
    assume "v < 65536 \<and> utf16 v = [v] \<and> \<not> is_lead v \<and> \<not> is_trail v"
    then show ?thesis
      using ih by (simp add: code_points_Cons_plain usv_utf8_Cons_plain)
  next
    assume "\<exists>c d. utf16 v = [c, d] \<and> is_lead c \<and> is_trail d \<and> pair_cp c d = v \<and>
            c < 65536 \<and> d < 65536"
    then obtain c d where "utf16 v = [c, d]" "is_lead c" "is_trail d" "pair_cp c d = v"
      "c < 65536" "d < 65536"
      by blast
    then show ?thesis using ih by simp
  qed
qed

lemma well_formed_cps:
  assumes "well_formed t"
  shows "\<exists>cps. list_all scalar cps \<and> t = concat (map utf16 cps)"
proof -
  obtain cps where "valid_string t" "code_points t = Some cps"
    using assms by (auto simp: well_formed_def)
  from encode_code_points [OF this] show ?thesis by blast
qed

lemma utf8_text_well_formed: "well_formed (utf8_text bs)"
proof -
  have "list_all scalar (utf8_lossy 0 0 128 191 bs)"
    by (rule utf8_lossy_scalar) (simp add: lossy_ok_def)
  from code_points_utf16 [OF this] show ?thesis
    by (simp add: well_formed_def utf8_text_def)
qed

lemma utf8_text_usv:
  assumes "well_formed t"
  shows "utf8_text (usv_utf8 t) = t"
proof -
  obtain cps where c: "list_all scalar cps" "t = concat (map utf16 cps)"
    using well_formed_cps [OF assms] by blast
  have "usv_utf8 t = concat (map utf8 cps)"
    using code_points_utf16 [OF c(1)] c(2) by simp
  moreover have "utf8_lossy 0 0 128 191 (concat (map utf8 cps)) = cps"
    using lossy_cps [OF c(1), of "[]"] by simp
  ultimately show ?thesis by (simp add: utf8_text_def c(2))
qed

lemma well_formed_append:
  "well_formed a \<Longrightarrow> well_formed b \<Longrightarrow> well_formed (a @ b)"
  using code_points_append [of a _ b] by (auto simp: well_formed_def)

lemma well_formed_ascii: "ascii_only a \<Longrightarrow> well_formed a"
proof -
  assume a: "ascii_only a"
  then have "plain a" "valid_string a"
    by (auto simp: ascii_only_def plain_def valid_string_def list_all_iff is_lead_def is_trail_def)
  then show ?thesis by (simp add: well_formed_def code_points_plain)
qed







lemma usv_utf8_bytes: "well_formed t \<Longrightarrow> bytes (usv_utf8 t)"
proof -
  assume "well_formed t"
  then obtain cps where c: "list_all scalar cps" "t = concat (map utf16 cps)"
    using well_formed_cps by blast
  then show ?thesis using code_points_utf16 [OF c(1)] utf8s_bytes [OF c(1)] by simp
qed













section \<open>The token in the address\<close>








lemma utf8_ascii: "ascii_only xs \<Longrightarrow> concat (map utf8 xs) = xs"
  by (induction xs) (simp_all add: utf8_def)

lemma encodeState_ascii:
  assumes "ascii_only (JSON_stringify s)"
  shows "encodeState s = b64_encode (JSON_stringify s)"
proof -
  let ?t = "JSON_stringify s"
  have p: "plain ?t" "valid_string ?t" "list_all scalar ?t"
    using assms
    by (auto simp: ascii_only_def plain_def valid_string_def scalar_def list_all_iff
        is_lead_def is_trail_def)
  have c: "code_points ?t = Some ?t" using p(1) by (rule code_points_plain)
  have u: "concat (map utf8 ?t) = ?t"
    using assms by (rule utf8_ascii)
  have b: "bytes ?t" using assms by (auto simp: ascii_only_def bytes_def list_all_iff)
  have "encodeURIComponent ?t = Inr (concat (map enc_cp ?t))"
    using encode_code_points [OF p(2) c] by simp
  moreover have "unescape (concat (map enc_cp ?t)) = ?t"
    using unescape_encoded [OF p(3)] u by simp
  ultimately show ?thesis
    using b by (simp add: encodeState_def btoa_def bytes_def)
qed


lemma stringify_gt:
  \<open>JSON_stringify (bundle_json b_gt) = ascii ''{"html":"ab>","css":"","js":""}''\<close>
  by (simp add: bundle_json_def b_gt_def QuoteJSONString_def quote_unit_def ascii_def
      is_lead_def is_trail_def)

lemma token_gt: "encodeState (bundle_json b_gt) = ascii ''eyJodG1sIjoiYWI+IiwiY3NzIjoiIiwianMiOiIifQ==''"
proof -
  have "ascii_only (JSON_stringify (bundle_json b_gt))"
    unfolding stringify_gt by (simp add: ascii_def)
  then have "encodeState (bundle_json b_gt) = b64_encode (JSON_stringify (bundle_json b_gt))"
    by (rule encodeState_ascii)
  also have "\<dots> = ascii ''eyJodG1sIjoiYWI+IiwiY3NzIjoiIiwianMiOiIifQ==''"
    unfolding stringify_gt by (simp add: ascii_def b64_char_def)
  finally show ?thesis .
qed



text \<open>
  An instance: the page at \<open>https://example.org/editor?theme=dark&code=eyJodG1sIjoiQSJ9#top\<close>
  shares the bundle with the markup \<open>ab>\<close>.  The other parameter and the fragment
  stay, the old token goes, and the \<open>+\<close> and the two \<open>=\<close> of the new token are
  written as \<open>%2B\<close> and \<open>%3D\<close>.
\<close>

lemma searchParams_example:
  "searchParams example_address =
     [(ascii ''theme'', ascii ''dark''), (ascii ''code'', ascii ''eyJodG1sIjoiQSJ9'')]"
  by (simp add: searchParams_def example_address_def parse_urlencoded_def parse_pair_def
      form_decode_def ascii_def is_lead_def is_trail_def utf8_def utf16_def hex_val_def
      is_digit_def)

lemma serialize_params_example:
  "serialize_params [(ascii ''theme'', ascii ''dark''),
      (ascii ''code'', ascii ''eyJodG1sIjoiYWI+IiwiY3NzIjoiIiwianMiOiIifQ=='')] =
    ascii ''theme=dark&code=eyJodG1sIjoiYWI%2BIiwiY3NzIjoiIiwianMiOiIifQ%3D%3D''"
  by (simp add: form_encode_def form_byte_def ascii_def is_lead_def is_trail_def utf8_def
      is_alnum_def is_digit_def is_upper_def is_lower_def pct_def hex_upper_def)

lemma generateShareURL_example:
  "generateShareURL example_address b_gt =
     ascii ''https://example.org/editor?theme=dark&code=eyJodG1sIjoiYWI%2BIiwiY3NzIjoiIiwianMiOiIifQ%3D%3D#top''"
proof -
  define ps where "ps = [(ascii ''theme'', ascii ''dark''),
       (ascii ''code'', ascii ''eyJodG1sIjoiYWI+IiwiY3NzIjoiIiwianMiOiIifQ=='')]"
  define q where "q = ascii ''theme=dark&code=eyJodG1sIjoiYWI%2BIiwiY3NzIjoiIiwianMiOiIifQ%3D%3D''"
  have p: "params_set (ascii ''code'') (encodeState (bundle_json b_gt)) (searchParams example_address) = ps"
    unfolding searchParams_example token_gt ps_def by (simp add: ascii_def)
  have z: "serialize_params ps = q"
    unfolding ps_def q_def by (rule serialize_params_example)
  have n: "q \<noteq> []" by (simp add: q_def ascii_def)
  have "share_address example_address b_gt = example_address\<lparr>query := Some q\<rparr>"
    unfolding share_address_def p update_query_def z using n by simp
  then have "generateShareURL example_address b_gt =
      origin_path example_address @ 63 # q @ hash example_address"
    by (simp add: generateShareURL_def href_def)
  then show ?thesis
    by (simp add: q_def example_address_def ascii_def)
qed

section \<open>The exported file\<close>

lemma srcDoc_well_formed:
  assumes "well_formed (html b)" and "well_formed (css b)" and "well_formed (js b)"
  shows "well_formed (srcDoc b)"
  unfolding srcDoc_def
  by (intro well_formed_append;
      (rule assms | (rule well_formed_ascii, simp add: ascii_def guard_handler_def)))

lemma code_points_plain_append:
  "plain a \<Longrightarrow> code_points (a @ r) = map_option ((@) a) (code_points r)"
proof (induction a)
  case Nil
  then show ?case by (simp add: option.map_ident)
next
  case (Cons c a)
  then show ?case
    by (simp add: plain_def code_points_Cons_plain option.map_comp comp_def)
qed

text \<open>
  C6, amended.  The file is the UTF-8 encoding of the composed document.  For buffers
  without an unpaired surrogate, the text of the file is the composed document of the
  current buffers, the very string that \<open>refreshPreview\<close> writes into the preview,
  with the script inside the guard block and its handler, and it is not the JSON text of
  the three buffers.
\<close>

theorem downloadProject_is_composed_document:
  assumes "well_formed (html s)" and "well_formed (css s)" and "well_formed (js s)"
  shows \<open>bytes (content (downloadProject s)) \<and>
     utf8_text (content (downloadProject s)) = srcDoc \<lparr>html = html s, css = css s, js = js s\<rparr> \<and>
     refreshPreview s = write_doc (utf8_text (content (downloadProject s))) s \<and>
     sublist (ascii ''<script>\<newline>      try {\<newline>        '' @ js s @ ascii ''\<newline>      } catch (e) {\<newline>        console.error(e);\<newline>        const pre = document.createElement('pre');\<newline>        pre.style.color = 'red';\<newline>        pre.textContent = e.stack || e.toString();\<newline>        document.body.appendChild(pre);\<newline>      }\<newline>    </script>'')
       (utf8_text (content (downloadProject s))) \<and>
     utf8_text (content (downloadProject s)) \<noteq> JSON_stringify (bundle_json s)\<close>
proof -
  have w: "well_formed (srcDoc s)" using assms by (rule srcDoc_well_formed)
  have c: "utf8_text (content (downloadProject s)) = srcDoc s"
    using utf8_text_usv [OF w] by (simp add: downloadProject_def Blob_def)
  have "bytes (content (downloadProject s))"
    using usv_utf8_bytes [OF w] by (simp add: downloadProject_def Blob_def)
  moreover have "srcDoc s = srcDoc \<lparr>html = html s, css = css s, js = js s\<rparr>"
    by (simp add: srcDoc_def)
  moreover have "refreshPreview s = write_doc (srcDoc s) s"
    by (simp add: refreshPreview_def)
  moreover have \<open>sublist (ascii ''<script>\<newline>      try {\<newline>        '' @ js s @ ascii ''\<newline>      } catch (e) {\<newline>        console.error(e);\<newline>        const pre = document.createElement('pre');\<newline>        pre.style.color = 'red';\<newline>        pre.textContent = e.stack || e.toString();\<newline>        document.body.appendChild(pre);\<newline>      }\<newline>    </script>'') (srcDoc s)\<close>
    unfolding srcDoc_script_literal [of s] by (rule sublist_appendI)
  moreover have "srcDoc s \<noteq> JSON_stringify (bundle_json s)"
    by (simp add: srcDoc_def bundle_json_def ascii_def)
  ultimately show ?thesis using c by simp
qed

theorem downloadProject_is_composed_document_witness:
  "well_formed (html default_editor) \<and> well_formed (css default_editor) \<and>
   well_formed (js default_editor) \<and>
   utf8_text (content (downloadProject default_editor)) = srcDoc DEFAULT_TEMPLATE \<and>
   refreshPreview default_editor =
     write_doc (utf8_text (content (downloadProject default_editor))) default_editor"
proof -
  have d: "well_formed (8212 # r)" if "well_formed r" for r
    using that
    by (auto simp: well_formed_def code_points_Cons_plain is_lead_def is_trail_def)
  have h: "well_formed (html default_editor)"
    unfolding default_editor_def mount_def DEFAULT_TEMPLATE_def
    by simp (intro well_formed_append d; (rule well_formed_ascii, simp add: ascii_def))
  have c: "well_formed (css default_editor)"
    unfolding default_editor_def mount_def DEFAULT_TEMPLATE_def
    by simp (rule well_formed_ascii, simp add: ascii_def)
  have j: "well_formed (js default_editor)"
    unfolding default_editor_def mount_def DEFAULT_TEMPLATE_def
    by simp (rule well_formed_ascii, simp add: ascii_def)
  have "srcDoc \<lparr>html = html default_editor, css = css default_editor, js = js default_editor\<rparr> =
      srcDoc DEFAULT_TEMPLATE"
    by (simp add: default_editor_def mount_def srcDoc_def)
  then show ?thesis
    using h c j downloadProject_is_composed_document [OF h c j] by simp
qed

lemma lone_document:
  \<open>srcDoc lone_editor = ascii ''<!doctype html>\<newline><html>\<newline>  <head>\<newline>    <meta charset="utf-8">\<newline>    <meta name="viewport" content="width=device-width, initial-scale=1">\<newline>    <style></style>\<newline>  </head>\<newline>  <body>\<newline>    '' @ 97 # 55296 # 98 # ascii ''\<newline>    <script>\<newline>      try {\<newline>        \<newline>      } catch (e) {\<newline>        '' @ guard_handler @ ascii ''\<newline>      }\<newline>    </script>\<newline>  </body>\<newline></html>''\<close>
  by (simp add: lone_editor_def mount_def b_lone_def srcDoc_def ascii_def)

lemma lone_document_surrogate: "\<not> well_formed (srcDoc lone_editor)"
proof -
  have "code_points (srcDoc lone_editor) = None"
    unfolding lone_document
    by (subst code_points_plain_append)
       (simp_all add: plain_def ascii_def is_lead_def is_trail_def)
  then show ?thesis by (simp add: well_formed_def)
qed

lemma usv_utf8_ascii_append: "ascii_only a \<Longrightarrow> usv_utf8 (a @ r) = a @ usv_utf8 r"
proof (induction a)
  case Nil
  then show ?case by simp
next
  case (Cons c a)
  then have "\<not> is_lead c" "\<not> is_trail c" "utf8 c = [c]"
    by (simp_all add: is_lead_def is_trail_def utf8_def)
  then show ?case using Cons by (simp add: usv_utf8_Cons_plain)
qed

lemma lone_file:
  "sublist [97, 239, 191, 189, 98] (content (downloadProject lone_editor))"
proof -
  obtain P Q where d: "srcDoc lone_editor = P @ 97 # 55296 # 98 # Q" and a: "ascii_only P"
  proof
    show \<open>srcDoc lone_editor = ascii ''<!doctype html>\<newline><html>\<newline>  <head>\<newline>    <meta charset="utf-8">\<newline>    <meta name="viewport" content="width=device-width, initial-scale=1">\<newline>    <style></style>\<newline>  </head>\<newline>  <body>\<newline>    '' @ 97 # 55296 # 98 # ascii ''\<newline>    <script>\<newline>      try {\<newline>        \<newline>      } catch (e) {\<newline>        '' @ guard_handler @ ascii ''\<newline>      }\<newline>    </script>\<newline>  </body>\<newline></html>''\<close>
      by (rule lone_document)
    show \<open>ascii_only (ascii ''<!doctype html>\<newline><html>\<newline>  <head>\<newline>    <meta charset="utf-8">\<newline>    <meta name="viewport" content="width=device-width, initial-scale=1">\<newline>    <style></style>\<newline>  </head>\<newline>  <body>\<newline>    '')\<close>
      by (simp add: ascii_def)
  qed
  have h: "usv_utf8 (97 # 55296 # 98 # r) = [97, 239, 191, 189, 98] @ usv_utf8 r" for r
    by (cases r) (simp_all add: is_lead_def is_trail_def utf8_def)
  have "usv_utf8 (srcDoc lone_editor) = P @ [97, 239, 191, 189, 98] @ usv_utf8 Q"
    unfolding d usv_utf8_ascii_append [OF a] h ..
  then have "content (downloadProject lone_editor) = P @ [97, 239, 191, 189, 98] @ usv_utf8 Q"
    by (simp add: downloadProject_def Blob_def)
  then show ?thesis
    by (simp only: sublist_appendI)
qed

text \<open>
  C6, as the specification words it, fails: for the markup \<open>a\<close>, an unpaired
  surrogate, \<open>b\<close> the file holds the three bytes of U+FFFD in place of the surrogate,
  so that its text is not the composed document that the preview is given.
\<close>

theorem download_replaces_unpaired_surrogate:
  "valid_bundle lone_editor \<and>
   html lone_editor = [97, 55296, 98] \<and>
   sublist [97, 239, 191, 189, 98] (content (downloadProject lone_editor)) \<and>
   utf8_text (content (downloadProject lone_editor)) \<noteq> srcDoc lone_editor \<and>
   refreshPreview lone_editor = write_doc (srcDoc lone_editor) lone_editor"
proof -
  have "valid_bundle lone_editor" "html lone_editor = [97, 55296, 98]"
    by (simp_all add: valid_bundle_def lone_editor_def mount_def b_lone_def)
  moreover have "utf8_text (content (downloadProject lone_editor)) \<noteq> srcDoc lone_editor"
    using utf8_text_well_formed [of "content (downloadProject lone_editor)"]
      lone_document_surrogate
    by auto
  moreover have "refreshPreview lone_editor = write_doc (srcDoc lone_editor) lone_editor"
    by (simp add: refreshPreview_def)
  ultimately show ?thesis using lone_file by blast
qed

end
